theory Spec2Isabelle
  imports Main
begin

section \<open>Values of the configuration dictionary\<close>

text \<open>
  The configuration handed to \<open>BridgeIf.update\<close> is a nested Python dictionary. Its values
  are \<open>None\<close>, integers, strings, lists of strings (\<open>member.interface_remove\<close>) and
  dictionaries with string keys. A dictionary is an association list in insertion order,
  the order in which \<open>items()\<close> iterates.
\<close>

datatype pyval =
    PNone
  | PInt int
  | PStr string
  | PStrList "string list"
  | PDict "(string \<times> pyval) list"

datatype error =
    InvalidParameter string pyval
  | NotFound string
  | ValueError
  | TypeError
  | AttributeError

text \<open>Python truthiness, as used by \<open>if tmp:\<close>.\<close>

fun truthy :: "pyval \<Rightarrow> bool" where
  "truthy PNone = False"
| "truthy (PInt n) = (n \<noteq> 0)"
| "truthy (PStr s) = (s \<noteq> [])"
| "truthy (PStrList xs) = (xs \<noteq> [])"
| "truthy (PDict d) = (d \<noteq> [])"

text \<open>\<open>config.get(key)\<close>: the value, or \<open>None\<close> when the key is absent.\<close>

definition dict_get :: "(string \<times> pyval) list \<Rightarrow> string \<Rightarrow> pyval" where
  "dict_get d k = (case map_of d k of None \<Rightarrow> PNone | Some v \<Rightarrow> v)"

text \<open>\<open>key in config\<close>.\<close>

definition dict_has :: "(string \<times> pyval) list \<Rightarrow> string \<Rightarrow> bool" where
  "dict_has d k = (map_of d k \<noteq> None)"

text \<open>\<open>interface_config.get(key)\<close> on a value that need not be a dictionary.\<close>

fun py_get :: "pyval \<Rightarrow> string \<Rightarrow> error + pyval" where
  "py_get (PDict d) k = Inr (dict_get d k)"
| "py_get _ k = Inl AttributeError"

text \<open>\<open>for member in tmp\<close>: the elements a \<open>for\<close> loop visits.\<close>

fun py_iter :: "pyval \<Rightarrow> error + string list" where
  "py_iter (PStrList xs) = Inr xs"
| "py_iter (PDict d) = Inr (map fst d)"
| "py_iter (PStr s) = Inr (map (\<lambda>c. [c]) s)"
| "py_iter _ = Inl TypeError"

text \<open>\<open>tmp.items()\<close>.\<close>

fun py_items :: "pyval \<Rightarrow> error + (string \<times> pyval) list" where
  "py_items (PDict d) = Inr d"
| "py_items _ = Inl AttributeError"

subsection \<open>The builtin \<open>int()\<close>\<close>

definition is_space :: "char \<Rightarrow> bool" where
  "is_space c \<longleftrightarrow> c \<in> set [CHR '' '', CHR 0x09, CHR 0x0A, CHR 0x0B, CHR 0x0C, CHR 0x0D]"

definition is_digit :: "char \<Rightarrow> bool" where
  "is_digit c \<longleftrightarrow> c \<in> set ''0123456789''"

definition digit_value :: "char \<Rightarrow> nat" where
  "digit_value c = of_char c - 48"

text \<open>Decimal digits, where a single underscore may stand between two digits.\<close>

fun parse_rest :: "nat \<Rightarrow> string \<Rightarrow> nat option" where
  "parse_rest acc [] = Some acc"
| "parse_rest acc (c # cs) =
     (if is_digit c then parse_rest (acc * 10 + digit_value c) cs
      else if c = CHR ''_'' then
        (case cs of
           [] \<Rightarrow> None
         | d # ds \<Rightarrow> if is_digit d then parse_rest (acc * 10 + digit_value d) ds else None)
      else None)"

definition parse_unsigned :: "string \<Rightarrow> nat option" where
  "parse_unsigned s =
     (case s of
        [] \<Rightarrow> None
      | c # cs \<Rightarrow> if is_digit c then parse_rest (digit_value c) cs else None)"

definition strip :: "string \<Rightarrow> string" where
  "strip s = rev (dropWhile is_space (rev (dropWhile is_space s)))"

definition int_of_string :: "string \<Rightarrow> int option" where
  "int_of_string s =
     (case strip s of
        [] \<Rightarrow> None
      | c # cs \<Rightarrow>
          if c = CHR ''-'' then map_option (\<lambda>n. - int n) (parse_unsigned cs)
          else if c = CHR ''+'' then map_option int (parse_unsigned cs)
          else map_option int (parse_unsigned (c # cs)))"

fun py_int :: "pyval \<Rightarrow> error + int" where
  "py_int (PInt n) = Inr n"
| "py_int (PStr s) = (case int_of_string s of None \<Rightarrow> Inl ValueError | Some n \<Rightarrow> Inr n)"
| "py_int _ = Inl TypeError"

section \<open>The device state and the operations observed on it\<close>

datatype direction = Up | Down

text \<open>
  An operation on one of the external collaborators: a write of a value to the property
  store at a location template resolved with a device identifier, a command template run
  with a device identifier and a value, a flush of the addresses of a port, a request to
  \<open>set_admin_state\<close>, and the link-state change such a request may lead to.
\<close>

datatype op =
    Write string string pyval
  | Command string string pyval
  | FlushAddrs string
  | AdminRequest string direction
  | LinkState string direction

record system =
  sysfs :: "string \<times> string \<Rightarrow> pyval option"
  master :: "string \<Rightarrow> string option"
  addrs :: "string \<Rightarrow> string list"
  down_cnt :: nat
  admin_up :: bool
  trace :: "op list"

definition fresh_system :: system where
  "fresh_system =
     \<lparr>sysfs = (\<lambda>_. None), master = (\<lambda>_. None), addrs = (\<lambda>_. []),
      down_cnt = 0, admin_up = False, trace = []\<rparr>"

text \<open>
  A step of the pass takes the state and returns the state it leaves, together with the
  exception it raised, if any; the state returned with an exception is the state at the
  moment it was raised.
\<close>

type_synonym step = "system \<Rightarrow> error option \<times> system"

definition ok :: step where
  "ok s = (None, s)"

definition raise :: "error \<Rightarrow> step" where
  "raise e s = (Some e, s)"

text \<open>Statements in sequence: the first exception ends the sequence.\<close>

fun run_steps :: "step list \<Rightarrow> step" where
  "run_steps [] s = (None, s)"
| "run_steps (f # fs) s =
     (case f s of
        (None, s') \<Rightarrow> run_steps fs s'
      | (Some e, s') \<Rightarrow> (Some e, s'))"

subsection \<open>The external collaborators\<close>

text \<open>
  Modelled from the spec: the property store, the command executor and the address-flush
  collaborator are not under src/. The store keeps the last value written for each pair of
  location template and device identifier. The attach command leaves the port attached to
  the bridge, the detach command leaves it attached to none, a value that is not a string
  names no port. A flush leaves the port without addresses. All three accept every request.
\<close>

definition add_port_cmd :: string where
  "add_port_cmd = ''ip link set dev {value} master {ifname}''"

definition del_port_cmd :: string where
  "del_port_cmd = ''ip link set dev {value} nomaster''"

fun effect :: "op \<Rightarrow> system \<Rightarrow> system" where
  "effect (Write loc ifname v) s = s\<lparr>sysfs := (sysfs s)((loc, ifname) \<mapsto> v)\<rparr>"
| "effect (Command c ifname (PStr port)) s =
     (if c = add_port_cmd then s\<lparr>master := (master s)(port \<mapsto> ifname)\<rparr>
      else if c = del_port_cmd then s\<lparr>master := (master s)(port := None)\<rparr>
      else s)"
| "effect (Command c ifname _) s = s"
| "effect (FlushAddrs port) s = s\<lparr>addrs := (addrs s)(port := [])\<rparr>"
| "effect (AdminRequest ifname Up) s = s\<lparr>down_cnt := down_cnt s - 1\<rparr>"
| "effect (AdminRequest ifname Down) s = s\<lparr>down_cnt := down_cnt s + 1\<rparr>"
| "effect (LinkState ifname d) s = s\<lparr>admin_up := (d = Up)\<rparr>"

definition perform :: "op \<Rightarrow> system \<Rightarrow> system" where
  "perform x s = (effect x s)\<lparr>trace := trace s @ [x]\<rparr>"

definition emit :: "op \<Rightarrow> step" where
  "emit x s = (None, perform x s)"

definition write_sysfs :: "string \<Rightarrow> string \<Rightarrow> pyval \<Rightarrow> step" where
  "write_sysfs loc ifname v = emit (Write loc ifname v)"

definition run_command :: "string \<Rightarrow> string \<Rightarrow> pyval \<Rightarrow> step" where
  "run_command c ifname v = emit (Command c ifname v)"

definition flush_addrs :: "string \<Rightarrow> step" where
  "flush_addrs port = emit (FlushAddrs port)"

section \<open>The parameter registry\<close>

text \<open>
  Modelled from the spec: \<open>assert_positive\<close> and \<open>assert_boolean\<close> of \<open>vyos.validate\<close> are
  not under src/. The first is the positive-integer validator: it accepts the values that
  \<open>int()\<close> reads as an integer greater than 0. The second is the boolean validator: it
  accepts the values that \<open>int()\<close> reads as 0 or 1.
\<close>

definition assert_positive :: "pyval \<Rightarrow> bool" where
  "assert_positive v = (case py_int v of Inl _ \<Rightarrow> False | Inr n \<Rightarrow> 0 < n)"

definition assert_boolean :: "pyval \<Rightarrow> bool" where
  "assert_boolean v = (case py_int v of Inl _ \<Rightarrow> False | Inr n \<Rightarrow> n = 0 \<or> n = 1)"

text \<open>The converter of the four timing parameters, \<open>lambda t: int(t) * 100\<close>.\<close>

definition centiseconds :: "pyval \<Rightarrow> error + pyval" where
  "centiseconds t = (case py_int t of Inl e \<Rightarrow> Inl e | Inr n \<Rightarrow> Inr (PInt (n * 100)))"

record sysfs_entry =
  validate :: "pyval \<Rightarrow> bool"
  convert :: "(pyval \<Rightarrow> error + pyval) option"
  location :: string

text \<open>
  \<open>BridgeIf._sysfs_set\<close>. The entries inherited from \<open>Interface._sysfs_set\<close> are not under
  src/ and are not used by \<open>update\<close>. Modelled from the spec: the two entries that
  \<open>STP.enable\<close> adds, \<open>path_cost\<close> and \<open>path_priority\<close>, validate positivity and have a
  location of their own below the device the view is bound to.
\<close>

definition sysfs_table :: "(string \<times> sysfs_entry) list" where
  "sysfs_table =
     [(''ageing_time'',
        \<lparr>validate = assert_positive, convert = Some centiseconds,
         location = ''/sys/class/net/{ifname}/bridge/ageing_time''\<rparr>),
      (''forward_delay'',
        \<lparr>validate = assert_positive, convert = Some centiseconds,
         location = ''/sys/class/net/{ifname}/bridge/forward_delay''\<rparr>),
      (''hello_time'',
        \<lparr>validate = assert_positive, convert = Some centiseconds,
         location = ''/sys/class/net/{ifname}/bridge/hello_time''\<rparr>),
      (''max_age'',
        \<lparr>validate = assert_positive, convert = Some centiseconds,
         location = ''/sys/class/net/{ifname}/bridge/max_age''\<rparr>),
      (''priority'',
        \<lparr>validate = assert_positive, convert = None,
         location = ''/sys/class/net/{ifname}/bridge/priority''\<rparr>),
      (''stp'',
        \<lparr>validate = assert_boolean, convert = None,
         location = ''/sys/class/net/{ifname}/bridge/stp_state''\<rparr>),
      (''multicast_querier'',
        \<lparr>validate = assert_boolean, convert = None,
         location = ''/sys/class/net/{ifname}/bridge/multicast_querier''\<rparr>),
      (''path_cost'',
        \<lparr>validate = assert_positive, convert = None,
         location = ''/sys/class/net/{ifname}/brport/path_cost''\<rparr>),
      (''path_priority'',
        \<lparr>validate = assert_positive, convert = None,
         location = ''/sys/class/net/{ifname}/brport/priority''\<rparr>)]"

definition sysfs_set :: "string \<Rightarrow> sysfs_entry option" where
  "sysfs_set = map_of sysfs_table"

text \<open>\<open>BridgeIf._command_set\<close>: the shell command of each command name.\<close>

definition command_table :: "(string \<times> string) list" where
  "command_table = [(''add_port'', add_port_cmd), (''del_port'', del_port_cmd)]"

definition command_set :: "string \<Rightarrow> string option" where
  "command_set = map_of command_table"

section \<open>The bridge device\<close>

text \<open>
  Modelled from the spec: \<open>Interface.set_interface\<close> is not under src/. A command name runs
  its command with the value. A parameter name with an absent value does nothing;
  otherwise the value is validated, and a rejected value raises \<open>InvalidParameter\<close> naming
  the parameter and the value; then it is converted; then it is written to the location.
  A name that is in neither table is not found.
\<close>

definition converted :: "sysfs_entry \<Rightarrow> pyval \<Rightarrow> error + pyval" where
  "converted e v = (case convert e of None \<Rightarrow> Inr v | Some f \<Rightarrow> f v)"

definition set_sysfs :: "string \<Rightarrow> string \<Rightarrow> sysfs_entry \<Rightarrow> pyval \<Rightarrow> step" where
  "set_sysfs ifname name e v =
     (if v = PNone then ok
      else if \<not> validate e v then raise (InvalidParameter name v)
      else
        (case converted e v of
           Inl err \<Rightarrow> raise err
         | Inr w \<Rightarrow> write_sysfs (location e) ifname w))"

definition set_interface :: "string \<Rightarrow> string \<Rightarrow> pyval \<Rightarrow> step" where
  "set_interface ifname name v =
     (case command_set name of
        Some c \<Rightarrow> run_command c ifname v
      | None \<Rightarrow>
          (case sysfs_set name of
             Some e \<Rightarrow> set_sysfs ifname name e v
           | None \<Rightarrow> raise (NotFound name)))"

definition set_ageing_time :: "string \<Rightarrow> pyval \<Rightarrow> step" where
  "set_ageing_time ifname time = set_interface ifname ''ageing_time'' time"

definition set_forward_delay :: "string \<Rightarrow> pyval \<Rightarrow> step" where
  "set_forward_delay ifname time = set_interface ifname ''forward_delay'' time"

definition set_hello_time :: "string \<Rightarrow> pyval \<Rightarrow> step" where
  "set_hello_time ifname time = set_interface ifname ''hello_time'' time"

definition set_max_age :: "string \<Rightarrow> pyval \<Rightarrow> step" where
  "set_max_age ifname time = set_interface ifname ''max_age'' time"

definition set_priority :: "string \<Rightarrow> pyval \<Rightarrow> step" where
  "set_priority ifname priority = set_interface ifname ''priority'' priority"

definition set_stp :: "string \<Rightarrow> pyval \<Rightarrow> step" where
  "set_stp ifname state = set_interface ifname ''stp'' state"

definition set_multicast_querier :: "string \<Rightarrow> pyval \<Rightarrow> step" where
  "set_multicast_querier ifname enable = set_interface ifname ''multicast_querier'' enable"

definition add_port :: "string \<Rightarrow> string \<Rightarrow> step" where
  "add_port ifname interface = set_interface ifname ''add_port'' (PStr interface)"

definition del_port :: "string \<Rightarrow> string \<Rightarrow> step" where
  "del_port ifname interface = set_interface ifname ''del_port'' (PStr interface)"

text \<open>
  Modelled from the spec: the setters of the view \<open>STPBridgeIf(interface)\<close> are not under
  src/. The view is bound to the port alone, and each setter is \<open>set_interface\<close> on it.
\<close>

definition set_path_cost :: "string \<Rightarrow> pyval \<Rightarrow> step" where
  "set_path_cost ifname cost = set_interface ifname ''path_cost'' cost"

definition set_path_priority :: "string \<Rightarrow> pyval \<Rightarrow> step" where
  "set_path_priority ifname priority = set_interface ifname ''path_priority'' priority"

text \<open>
  Modelled from the spec: \<open>Interface.set_admin_state\<close> is not under src/. The comment at
  its call in \<open>update\<close> says that the interface is only enabled if \<open>up\<close> was called as often
  as \<open>down\<close>, and the spec's scenario starts at count 0 and has \<open>down, down, up\<close> leave
  count 1 with the device down, one more \<open>up\<close> count 0 with the device up. So the count
  is the number of \<open>down\<close> requests not yet released: \<open>down\<close> adds one and takes the link
  down, \<open>up\<close> removes one, never below 0, and brings the link up once the count is 0.
\<close>

definition set_admin_state :: "string \<Rightarrow> direction \<Rightarrow> step" where
  "set_admin_state ifname state =
     (case state of
        Up \<Rightarrow> (\<lambda>s.
          if down_cnt s - 1 = 0
          then run_steps [emit (AdminRequest ifname Up), emit (LinkState ifname Up)] s
          else emit (AdminRequest ifname Up) s)
      | Down \<Rightarrow> run_steps [emit (AdminRequest ifname Down), emit (LinkState ifname Down)])"

text \<open>
  Modelled from the spec: \<open>vyos_dict_search\<close> is not under src/. It follows the keys of the
  dotted path through the nested dictionaries and returns the value found, \<open>None\<close> when a
  key is absent. The path is given as the list of its keys.
\<close>

fun vyos_dict_search :: "string list \<Rightarrow> pyval \<Rightarrow> pyval" where
  "vyos_dict_search [] v = v"
| "vyos_dict_search (k # ks) (PDict d) =
     (case map_of d k of None \<Rightarrow> PNone | Some v \<Rightarrow> vyos_dict_search ks v)"
| "vyos_dict_search (k # ks) _ = PNone"

text \<open>
  Modelled from the spec: \<open>Interface.update\<close>, which \<open>update\<close> calls first, is not under
  src/, and the spec's pass has no step before the scalar parameters: it does nothing here.
\<close>

definition Interface_update :: "string \<Rightarrow> (string \<times> pyval) list \<Rightarrow> step" where
  "Interface_update ifname config = ok"

section \<open>The reconciliation pass\<close>

text \<open>The body of the loop over \<open>member.interface\<close>, for one port and its configuration.\<close>

definition port_steps :: "string \<Rightarrow> string \<times> pyval \<Rightarrow> step" where
  "port_steps ifname item =
     (case item of (interface, interface_config) \<Rightarrow>
        run_steps
          [flush_addrs interface,
           add_port ifname interface,
           (case py_get interface_config ''cost'' of
              Inl e \<Rightarrow> raise e
            | Inr v \<Rightarrow> set_path_cost interface v),
           (case py_get interface_config ''priority'' of
              Inl e \<Rightarrow> raise e
            | Inr v \<Rightarrow> set_path_priority interface v)])"

definition remove_members :: "string \<Rightarrow> (string \<times> pyval) list \<Rightarrow> step" where
  "remove_members ifname config =
     (let tmp = vyos_dict_search [''member'', ''interface_remove''] (PDict config) in
      if truthy tmp then
        (case py_iter tmp of
           Inl e \<Rightarrow> raise e
         | Inr members \<Rightarrow> run_steps (map (del_port ifname) members))
      else ok)"

definition add_members :: "string \<Rightarrow> (string \<times> pyval) list \<Rightarrow> step" where
  "add_members ifname config =
     (let tmp = vyos_dict_search [''member'', ''interface''] (PDict config) in
      if truthy tmp then
        (case py_items tmp of
           Inl e \<Rightarrow> raise e
         | Inr items \<Rightarrow> run_steps (map (port_steps ifname) items))
      else ok)"

definition admin_direction :: "(string \<times> pyval) list \<Rightarrow> direction" where
  "admin_direction config = (if dict_has config ''disable'' then Down else Up)"

text \<open>\<open>BridgeIf.update\<close>.\<close>

definition update :: "string \<Rightarrow> (string \<times> pyval) list \<Rightarrow> step" where
  "update ifname config =
     run_steps
       [Interface_update ifname config,
        set_ageing_time ifname (dict_get config ''aging''),
        set_forward_delay ifname (dict_get config ''forwarding_delay''),
        set_hello_time ifname (dict_get config ''hello_time''),
        set_max_age ifname (dict_get config ''max_age''),
        set_priority ifname (dict_get config ''priority''),
        set_stp ifname (PStr (if dict_has config ''stp'' then ''1'' else ''0'')),
        set_multicast_querier ifname
          (PStr (if vyos_dict_search [''igmp'', ''querier''] (PDict config) \<noteq> PNone
                 then ''1'' else ''0'')),
        remove_members ifname config,
        add_members ifname config,
        set_admin_state ifname (admin_direction config)]"

section \<open>The operations a step emits\<close>

text \<open>
  Every operation is logged in \<open>trace\<close> when it is performed. \<open>replay\<close> performs a list of
  operations in order; \<open>emitted f s\<close> is what the step \<open>f\<close> adds to the log of \<open>s\<close>.
\<close>

definition replay :: "op list \<Rightarrow> system \<Rightarrow> system" where
  "replay xs s = foldl (\<lambda>t x. perform x t) s xs"

definition emitted :: "step \<Rightarrow> system \<Rightarrow> op list" where
  "emitted f s = drop (length (trace s)) (trace (snd (f s)))"

text \<open>
  A step is oblivious when its exception and its operations are the same from every
  state, and it emits \<open>Q\<close> when all it does is perform operations that satisfy \<open>Q\<close>.
\<close>

definition oblivious :: "(op \<Rightarrow> bool) \<Rightarrow> step \<Rightarrow> bool" where
  "oblivious Q f \<longleftrightarrow> (\<exists>err xs. (\<forall>x\<in>set xs. Q x) \<and> (\<forall>s. f s = (err, replay xs s)))"

definition emits :: "(op \<Rightarrow> bool) \<Rightarrow> step \<Rightarrow> bool" where
  "emits Q f \<longleftrightarrow> (\<forall>s. \<exists>xs. (\<forall>x\<in>set xs. Q x) \<and> snd (f s) = replay xs s)"

fun is_admin :: "op \<Rightarrow> bool" where
  "is_admin (AdminRequest ifname d) = True"
| "is_admin (LinkState ifname d) = True"
| "is_admin _ = False"

fun is_link_state :: "op \<Rightarrow> bool" where
  "is_link_state (LinkState ifname d) = True"
| "is_link_state _ = False"

text \<open>
  The steps of \<open>update\<close> before the admin-state request, the names and values its seven
  setters are called with, and the items of \<open>member.interface\<close> when it is a dictionary.
\<close>

definition config_steps :: "string \<Rightarrow> (string \<times> pyval) list \<Rightarrow> step list" where
  "config_steps ifname config =
       [Interface_update ifname config,
        set_ageing_time ifname (dict_get config ''aging''),
        set_forward_delay ifname (dict_get config ''forwarding_delay''),
        set_hello_time ifname (dict_get config ''hello_time''),
        set_max_age ifname (dict_get config ''max_age''),
        set_priority ifname (dict_get config ''priority''),
        set_stp ifname (PStr (if dict_has config ''stp'' then ''1'' else ''0'')),
        set_multicast_querier ifname
          (PStr (if vyos_dict_search [''igmp'', ''querier''] (PDict config) \<noteq> PNone
                 then ''1'' else ''0'')),
        remove_members ifname config,
        add_members ifname config]"

definition setter_args :: "(string \<times> pyval) list \<Rightarrow> (string \<times> pyval) list" where
  "setter_args config =
     [(''ageing_time'', dict_get config ''aging''),
      (''forward_delay'', dict_get config ''forwarding_delay''),
      (''hello_time'', dict_get config ''hello_time''),
      (''max_age'', dict_get config ''max_age''),
      (''priority'', dict_get config ''priority''),
      (''stp'', PStr (if dict_has config ''stp'' then ''1'' else ''0'')),
      (''multicast_querier'',
         PStr (if vyos_dict_search [''igmp'', ''querier''] (PDict config) \<noteq> PNone
               then ''1'' else ''0''))]"

definition member_items :: "(string \<times> pyval) list \<Rightarrow> (string \<times> pyval) list" where
  "member_items config =
     (case vyos_dict_search [''member'', ''interface''] (PDict config) of
        PDict d \<Rightarrow> d
      | _ \<Rightarrow> [])"

text \<open>What \<open>set_admin_state\<close> emits when the count is \<open>n\<close> before the request.\<close>

definition admin_ops :: "string \<Rightarrow> direction \<Rightarrow> nat \<Rightarrow> op list" where
  "admin_ops ifname d n =
     AdminRequest ifname d # (if d = Down \<or> n \<le> 1 then [LinkState ifname d] else [])"

text \<open>The operations that set the store at a key, and those that set the master of a port.\<close>

fun writes_to :: "string \<times> string \<Rightarrow> op \<Rightarrow> bool" where
  "writes_to k (Write loc ifname v) = (k = (loc, ifname))"
| "writes_to k _ = False"

fun links_port :: "string \<Rightarrow> op \<Rightarrow> bool" where
  "links_port p (Command c ifname (PStr port)) =
     (p = port \<and> (c = add_port_cmd \<or> c = del_port_cmd))"
| "links_port p _ = False"

text \<open>The configuration key and the parameter name of each of the five scalar parameters.\<close>

definition scalar_params :: "(string \<times> string) list" where
  "scalar_params =
     [(''aging'', ''ageing_time''), (''forwarding_delay'', ''forward_delay''),
      (''hello_time'', ''hello_time''), (''max_age'', ''max_age''), (''priority'', ''priority'')]"

text \<open>
  The writes of the two port setters for given cost and priority values, the operations
  that detach no port and attach only to the given bridge, and the commands.
\<close>

definition port_ops :: "string \<Rightarrow> pyval \<Rightarrow> pyval \<Rightarrow> op list" where
  "port_ops p cost priority =
     (if cost = PNone then [] else [Write ''/sys/class/net/{ifname}/brport/path_cost'' p cost])
     @ (if priority = PNone then []
        else [Write ''/sys/class/net/{ifname}/brport/priority'' p priority])"

fun attaches_only :: "string \<Rightarrow> op \<Rightarrow> bool" where
  "attaches_only ifn (Command c ifname v) = (c = add_port_cmd \<and> ifname = ifn)"
| "attaches_only ifn _ = True"

fun is_command :: "op \<Rightarrow> bool" where
  "is_command (Command c ifname v) = True"
| "is_command _ = False"

section \<open>The configurations under which a pass reaches a step\<close>

text \<open>
  A value that a setter with the positivity validator lets pass: an absent value, which the
  setter skips, or a positive integer.
\<close>

definition accepted :: "pyval \<Rightarrow> bool" where
  "accepted v \<longleftrightarrow> v = PNone \<or> assert_positive v"

text \<open>
  The scalar parameters whose setters \<open>update\<close> calls before the setter of the given key, and
  the configurations whose values for a list of scalar parameters all pass.
\<close>

definition scalars_before :: "string \<Rightarrow> (string \<times> string) list" where
  "scalars_before key = takeWhile (\<lambda>p. fst p \<noteq> key) scalar_params"

definition scalars_accepted :: "(string \<times> pyval) list \<Rightarrow> (string \<times> string) list \<Rightarrow> bool" where
  "scalars_accepted config ps = list_all (\<lambda>p. accepted (dict_get config (fst p))) ps"

text \<open>
  The configurations whose \<open>member.interface_remove\<close> the removal loop can iterate, and the
  items of \<open>member.interface\<close> whose cost and priority both pass.
\<close>

definition removal_accepted :: "(string \<times> pyval) list \<Rightarrow> bool" where
  "removal_accepted config =
     (let tmp = vyos_dict_search [''member'', ''interface_remove''] (PDict config) in
      if truthy tmp then (case py_iter tmp of Inl e \<Rightarrow> False | Inr members \<Rightarrow> True) else True)"

fun port_accepted :: "string \<times> pyval \<Rightarrow> bool" where
  "port_accepted (p, PDict d) = (accepted (dict_get d ''cost'') \<and> accepted (dict_get d ''priority''))"
| "port_accepted (p, _) = False"

text \<open>The four statements of the body of the loop over \<open>member.interface\<close>, as a list.\<close>

definition port_list :: "string \<Rightarrow> string \<times> pyval \<Rightarrow> step list" where
  "port_list ifname item =
     (case item of (interface, interface_config) \<Rightarrow>
          [flush_addrs interface,
           add_port ifname interface,
           (case py_get interface_config ''cost'' of
              Inl e \<Rightarrow> raise e
            | Inr v \<Rightarrow> set_path_cost interface v),
           (case py_get interface_config ''priority'' of
              Inl e \<Rightarrow> raise e
            | Inr v \<Rightarrow> set_path_priority interface v)])"

section \<open>Table lookups and the setters\<close>

lemma command_set_simps:
  "command_set ''add_port'' = Some add_port_cmd"
  "command_set ''del_port'' = Some del_port_cmd"
  "command_set ''ageing_time'' = None"
  "command_set ''forward_delay'' = None"
  "command_set ''hello_time'' = None"
  "command_set ''max_age'' = None"
  "command_set ''priority'' = None"
  "command_set ''stp'' = None"
  "command_set ''multicast_querier'' = None"
  "command_set ''path_cost'' = None"
  "command_set ''path_priority'' = None"
  by (simp_all add: command_set_def command_table_def)

lemma sysfs_set_simps:
  "sysfs_set ''ageing_time'' = Some \<lparr>validate = assert_positive, convert = Some centiseconds,
     location = ''/sys/class/net/{ifname}/bridge/ageing_time''\<rparr>"
  "sysfs_set ''forward_delay'' = Some \<lparr>validate = assert_positive, convert = Some centiseconds,
     location = ''/sys/class/net/{ifname}/bridge/forward_delay''\<rparr>"
  "sysfs_set ''hello_time'' = Some \<lparr>validate = assert_positive, convert = Some centiseconds,
     location = ''/sys/class/net/{ifname}/bridge/hello_time''\<rparr>"
  "sysfs_set ''max_age'' = Some \<lparr>validate = assert_positive, convert = Some centiseconds,
     location = ''/sys/class/net/{ifname}/bridge/max_age''\<rparr>"
  "sysfs_set ''priority'' = Some \<lparr>validate = assert_positive, convert = None,
     location = ''/sys/class/net/{ifname}/bridge/priority''\<rparr>"
  "sysfs_set ''stp'' = Some \<lparr>validate = assert_boolean, convert = None,
     location = ''/sys/class/net/{ifname}/bridge/stp_state''\<rparr>"
  "sysfs_set ''multicast_querier'' = Some \<lparr>validate = assert_boolean, convert = None,
     location = ''/sys/class/net/{ifname}/bridge/multicast_querier''\<rparr>"
  "sysfs_set ''path_cost'' = Some \<lparr>validate = assert_positive, convert = None,
     location = ''/sys/class/net/{ifname}/brport/path_cost''\<rparr>"
  "sysfs_set ''path_priority'' = Some \<lparr>validate = assert_positive, convert = None,
     location = ''/sys/class/net/{ifname}/brport/priority''\<rparr>"
  by (simp_all add: sysfs_set_def sysfs_table_def)

lemmas setter_defs =
  set_ageing_time_def set_forward_delay_def set_hello_time_def set_max_age_def
  set_priority_def set_stp_def set_multicast_querier_def set_path_cost_def
  set_path_priority_def add_port_def del_port_def

lemma set_interface_sysfs:
  "command_set name = None \<Longrightarrow> sysfs_set name = Some e \<Longrightarrow>
   set_interface ifn name v = set_sysfs ifn name e v"
  by (simp add: set_interface_def)

lemma set_sysfs_centiseconds:
  assumes "py_int v = Inr t" and "0 < t"
    and "validate e = assert_positive" and "convert e = Some centiseconds"
  shows "set_sysfs ifn name e v s = (None, perform (Write (location e) ifn (PInt (t * 100))) s)"
proof -
  from assms(1) have "v \<noteq> PNone" by auto
  with assms show ?thesis
    by (simp add: set_sysfs_def converted_def assert_positive_def centiseconds_def
        write_sysfs_def emit_def)
qed

lemma sysfs_perform_write [simp]:
  "sysfs (perform (Write loc ifn w) s) (loc, ifn) = Some w"
  by (simp add: perform_def)

text \<open>
  C5. For every positive integer \<open>t\<close>, each of the four setters of a timing parameter
  (\<open>ageing_time\<close>, \<open>forward_delay\<close>, \<open>hello_time\<close>, \<open>max_age\<close>), given a value that
  \<open>int()\<close> reads as \<open>t\<close>, raises nothing and performs exactly one write, of \<open>t * 100\<close>
  to the location of the parameter; the store then holds \<open>t * 100\<close> there, and this value
  divided by 100 is \<open>t\<close>.
\<close>

theorem timing_setters_store_centiseconds:
  assumes "py_int v = Inr t" and "0 < t"
  shows "set_ageing_time ifn v s =
           (None, perform (Write ''/sys/class/net/{ifname}/bridge/ageing_time'' ifn (PInt (t * 100))) s)
       \<and> set_forward_delay ifn v s =
           (None, perform (Write ''/sys/class/net/{ifname}/bridge/forward_delay'' ifn (PInt (t * 100))) s)
       \<and> set_hello_time ifn v s =
           (None, perform (Write ''/sys/class/net/{ifname}/bridge/hello_time'' ifn (PInt (t * 100))) s)
       \<and> set_max_age ifn v s =
           (None, perform (Write ''/sys/class/net/{ifname}/bridge/max_age'' ifn (PInt (t * 100))) s)
       \<and> (\<forall>loc. sysfs (perform (Write loc ifn (PInt (t * 100))) s) (loc, ifn) = Some (PInt (t * 100)))
       \<and> (t * 100) div 100 = t"
  using assms
  by (simp add: setter_defs set_interface_sysfs [OF command_set_simps(3) sysfs_set_simps(1)]
      set_interface_sysfs [OF command_set_simps(4) sysfs_set_simps(2)]
      set_interface_sysfs [OF command_set_simps(5) sysfs_set_simps(3)]
      set_interface_sysfs [OF command_set_simps(6) sysfs_set_simps(4)]
      set_sysfs_centiseconds)

theorem timing_setters_store_centiseconds_witness:
  "py_int (PInt 15) = Inr 15 \<and> (0::int) < 15
   \<and> set_forward_delay ''br0'' (PInt 15) fresh_system =
       (None, perform (Write ''/sys/class/net/{ifname}/bridge/forward_delay'' ''br0'' (PInt 1500)) fresh_system)
   \<and> sysfs (snd (set_forward_delay ''br0'' (PInt 15) fresh_system))
        (''/sys/class/net/{ifname}/bridge/forward_delay'', ''br0'') = Some (PInt 1500)"
  using timing_setters_store_centiseconds [of "PInt 15" 15 "''br0''" fresh_system]
  by simp

lemma set_sysfs_rejects:
  assumes "v \<noteq> PNone" and "case py_int v of Inl _ \<Rightarrow> True | Inr n \<Rightarrow> n \<le> 0"
    and "validate e = assert_positive"
  shows "set_sysfs ifn name e v s = (Some (InvalidParameter name v), s)"
  using assms
  by (auto simp add: set_sysfs_def assert_positive_def raise_def split: sum.splits)

text \<open>
  C6. For every value that is present and that \<open>int()\<close> reads as an integer not greater
  than 0, or does not read as an integer at all, each of the five setters with the
  positivity validator (\<open>ageing_time\<close>, \<open>forward_delay\<close>, \<open>hello_time\<close>, \<open>max_age\<close>,
  \<open>priority\<close>) raises \<open>InvalidParameter\<close> naming the parameter and the value, and leaves
  the state as it was: nothing is written and nothing is logged.
\<close>

theorem positivity_validator_rejects_without_write:
  assumes "v \<noteq> PNone" and "case py_int v of Inl _ \<Rightarrow> True | Inr n \<Rightarrow> n \<le> 0"
  shows "set_ageing_time ifn v s = (Some (InvalidParameter ''ageing_time'' v), s)
       \<and> set_forward_delay ifn v s = (Some (InvalidParameter ''forward_delay'' v), s)
       \<and> set_hello_time ifn v s = (Some (InvalidParameter ''hello_time'' v), s)
       \<and> set_max_age ifn v s = (Some (InvalidParameter ''max_age'' v), s)
       \<and> set_priority ifn v s = (Some (InvalidParameter ''priority'' v), s)"
  using assms
  by (simp add: setter_defs set_interface_sysfs [OF command_set_simps(3) sysfs_set_simps(1)]
      set_interface_sysfs [OF command_set_simps(4) sysfs_set_simps(2)]
      set_interface_sysfs [OF command_set_simps(5) sysfs_set_simps(3)]
      set_interface_sysfs [OF command_set_simps(6) sysfs_set_simps(4)]
      set_interface_sysfs [OF command_set_simps(7) sysfs_set_simps(5)]
      set_sysfs_rejects)

theorem positivity_validator_rejects_without_write_witness:
  "PInt 0 \<noteq> PNone \<and> (case py_int (PInt 0) of Inl _ \<Rightarrow> True | Inr n \<Rightarrow> n \<le> 0)
   \<and> set_priority ''br0'' (PInt 0) fresh_system =
       (Some (InvalidParameter ''priority'' (PInt 0)), fresh_system)
   \<and> (case py_int (PStr ''fast'') of Inl _ \<Rightarrow> True | Inr n \<Rightarrow> n \<le> 0)
   \<and> set_max_age ''br0'' (PStr ''fast'') fresh_system =
       (Some (InvalidParameter ''max_age'' (PStr ''fast'')), fresh_system)"
proof -
  have a: "case py_int (PStr ''fast'') of Inl _ \<Rightarrow> True | Inr n \<Rightarrow> n \<le> 0"
    by (simp add: int_of_string_def strip_def is_space_def parse_unsigned_def is_digit_def)
  show ?thesis
    using positivity_validator_rejects_without_write [of "PInt 0" "''br0''" fresh_system]
      positivity_validator_rejects_without_write [of "PStr ''fast''" "''br0''" fresh_system] a
    by simp
qed

section \<open>The admin-state reference count\<close>

lemma set_admin_state_up:
  "set_admin_state ifn Up s =
     (None, if down_cnt s \<le> 1
            then perform (LinkState ifn Up) (perform (AdminRequest ifn Up) s)
            else perform (AdminRequest ifn Up) s)"
  by (auto simp add: set_admin_state_def emit_def)

lemma set_admin_state_down:
  "set_admin_state ifn Down s =
     (None, perform (LinkState ifn Down) (perform (AdminRequest ifn Down) s))"
  by (simp add: set_admin_state_def emit_def)

text \<open>
  C2, as amended. The count is the number of \<open>down\<close> requests not yet released: every
  request succeeds, \<open>up\<close> decrements the count, never below 0, and \<open>down\<close> increments it;
  from a state where the device is not up with a count above 0, the device is up after a
  request if and only if the count is then 0. From count 0 the requests \<open>down, down, up\<close>
  leave the count at 1 and the device down, and one more \<open>up\<close> leaves the count at 0 and
  the device up.
\<close>

theorem admin_state_counts_down_requests:
  "fst (set_admin_state ifn d s) = None
   \<and> down_cnt (snd (set_admin_state ifn Up s)) = down_cnt s - 1
   \<and> down_cnt (snd (set_admin_state ifn Down s)) = down_cnt s + 1
   \<and> ((admin_up s \<longrightarrow> down_cnt s = 0) \<longrightarrow>
        (admin_up (snd (set_admin_state ifn d s)) \<longleftrightarrow> down_cnt (snd (set_admin_state ifn d s)) = 0))
   \<and> (down_cnt s = 0 \<longrightarrow>
        down_cnt (snd (run_steps
          [set_admin_state ifn Down, set_admin_state ifn Down, set_admin_state ifn Up] s)) = 1
        \<and> \<not> admin_up (snd (run_steps
          [set_admin_state ifn Down, set_admin_state ifn Down, set_admin_state ifn Up] s))
        \<and> down_cnt (snd (run_steps
          [set_admin_state ifn Down, set_admin_state ifn Down, set_admin_state ifn Up,
           set_admin_state ifn Up] s)) = 0
        \<and> admin_up (snd (run_steps
          [set_admin_state ifn Down, set_admin_state ifn Down, set_admin_state ifn Up,
           set_admin_state ifn Up] s)))"
  by (cases d) (simp_all add: set_admin_state_up set_admin_state_down perform_def)

theorem admin_state_counts_down_requests_witness:
  "\<not> admin_up fresh_system
   \<and> down_cnt fresh_system = 0
   \<and> admin_up (snd (set_admin_state ''br0'' Up fresh_system))
   \<and> down_cnt (snd (set_admin_state ''br0'' Up fresh_system)) = 0
   \<and> \<not> admin_up (snd (run_steps
        [set_admin_state ''br0'' Down, set_admin_state ''br0'' Down, set_admin_state ''br0'' Up]
        fresh_system))
   \<and> admin_up (snd (run_steps
        [set_admin_state ''br0'' Down, set_admin_state ''br0'' Down, set_admin_state ''br0'' Up,
         set_admin_state ''br0'' Up] fresh_system))"
  using admin_state_counts_down_requests [of "''br0''" Up fresh_system]
  by (simp add: fresh_system_def)

text \<open>
  C2 as stated fails: after \<open>down, down, up\<close> on a fresh device the count is 1 and the
  device is down, so "up if and only if the count is greater than 0" does not hold there;
  and the first \<open>down\<close> has incremented the count, not decremented it.
\<close>

theorem up_iff_positive_count_counterexample:
  "down_cnt (snd (run_steps
      [set_admin_state ''br0'' Down, set_admin_state ''br0'' Down, set_admin_state ''br0'' Up]
      fresh_system)) = 1
   \<and> \<not> admin_up (snd (run_steps
      [set_admin_state ''br0'' Down, set_admin_state ''br0'' Down, set_admin_state ''br0'' Up]
      fresh_system))
   \<and> \<not> (admin_up (snd (run_steps
      [set_admin_state ''br0'' Down, set_admin_state ''br0'' Down, set_admin_state ''br0'' Up]
      fresh_system))
      \<longleftrightarrow> 0 < down_cnt (snd (run_steps
      [set_admin_state ''br0'' Down, set_admin_state ''br0'' Down, set_admin_state ''br0'' Up]
      fresh_system)))
   \<and> down_cnt (snd (set_admin_state ''br0'' Down fresh_system)) = down_cnt fresh_system + 1"
  by (simp add: set_admin_state_up set_admin_state_down perform_def fresh_system_def)

section \<open>Replaying operations\<close>

lemma replay_Nil [simp]: "replay [] s = s"
  by (simp add: replay_def)

lemma replay_Cons [simp]: "replay (x # xs) s = replay xs (perform x s)"
  by (simp add: replay_def)

lemma replay_append [simp]: "replay (xs @ ys) s = replay ys (replay xs s)"
  by (simp add: replay_def)

lemma trace_perform [simp]: "trace (perform x s) = trace s @ [x]"
  by (simp add: perform_def)

lemma trace_replay [simp]: "trace (replay xs s) = trace s @ xs"
  by (induction xs arbitrary: s) simp_all

lemma emitted_replay: "snd (f s) = replay xs s \<Longrightarrow> emitted f s = xs"
  by (simp add: emitted_def)

lemma obliviousI:
  "(\<And>x. x \<in> set xs \<Longrightarrow> Q x) \<Longrightarrow> (\<And>s. f s = (err, replay xs s)) \<Longrightarrow> oblivious Q f"
  unfolding oblivious_def by blast

lemma oblivious_ok: "oblivious Q ok"
  by (rule obliviousI [of "[]" _ _ None]) (simp_all add: ok_def)

lemma oblivious_raise: "oblivious Q (raise e)"
  by (rule obliviousI [of "[]" _ _ "Some e"]) (simp_all add: raise_def)

lemma oblivious_emit: "Q x \<Longrightarrow> oblivious Q (emit x)"
  by (rule obliviousI [of "[x]" _ _ None]) (simp_all add: emit_def)

lemma oblivious_Cons:
  assumes "oblivious Q f" and "oblivious Q (run_steps fs)"
  shows "oblivious Q (run_steps (f # fs))"
proof -
  from assms(1) obtain e1 xs where 1: "\<forall>x\<in>set xs. Q x" "\<And>s. f s = (e1, replay xs s)"
    unfolding oblivious_def by blast
  from assms(2) obtain e2 ys where 2: "\<forall>x\<in>set ys. Q x" "\<And>s. run_steps fs s = (e2, replay ys s)"
    unfolding oblivious_def by blast
  show ?thesis
  proof (cases e1)
    case None
    show ?thesis
      by (rule obliviousI [of "xs @ ys" _ _ e2]) (use 1 2 None in auto)
  next
    case (Some e)
    show ?thesis
      by (rule obliviousI [of xs _ _ "Some e"]) (use 1 Some in auto)
  qed
qed

lemma oblivious_run_steps:
  "(\<And>f. f \<in> set fs \<Longrightarrow> oblivious Q f) \<Longrightarrow> oblivious Q (run_steps fs)"
proof (induction fs)
  case Nil
  show ?case by (rule obliviousI [of "[]" _ _ None]) simp_all
next
  case (Cons f fs)
  then show ?case by (intro oblivious_Cons) simp_all
qed

lemma oblivious_emits: "oblivious Q f \<Longrightarrow> emits Q f"
  unfolding oblivious_def emits_def by fastforce

lemma emits_Cons:
  assumes "emits Q f" and "emits Q (run_steps fs)"
  shows "emits Q (run_steps (f # fs))"
  unfolding emits_def
proof
  fix s
  from assms(1) obtain xs where 1: "\<forall>x\<in>set xs. Q x" "snd (f s) = replay xs s"
    unfolding emits_def by blast
  from assms(2) obtain ys where 2: "\<forall>x\<in>set ys. Q x"
      "snd (run_steps fs (snd (f s))) = replay ys (snd (f s))"
    unfolding emits_def by blast
  show "\<exists>zs. (\<forall>x\<in>set zs. Q x) \<and> snd (run_steps (f # fs) s) = replay zs s"
  proof (cases "fst (f s)")
    case None
    then have "run_steps (f # fs) s = run_steps fs (snd (f s))"
      by (cases "f s") simp
    with 1 2 show ?thesis by (intro exI [of _ "xs @ ys"]) auto
  next
    case (Some e)
    then have "run_steps (f # fs) s = (Some e, snd (f s))"
      by (cases "f s") simp
    with 1 show ?thesis by (intro exI [of _ xs]) auto
  qed
qed

lemma emits_run_steps:
  "(\<And>f. f \<in> set fs \<Longrightarrow> emits Q f) \<Longrightarrow> emits Q (run_steps fs)"
proof (induction fs)
  case Nil
  show ?case unfolding emits_def by (auto intro: exI [of _ "[]"])
next
  case (Cons f fs)
  then show ?case by (intro emits_Cons) simp_all
qed

lemma emits_set_admin_state:
  "Q (AdminRequest ifn d) \<Longrightarrow> Q (LinkState ifn d) \<Longrightarrow> emits Q (set_admin_state ifn d)"
  unfolding emits_def
proof
  fix s
  assume q: "Q (AdminRequest ifn d)" "Q (LinkState ifn d)"
  show "\<exists>xs. (\<forall>x\<in>set xs. Q x) \<and> snd (set_admin_state ifn d s) = replay xs s"
  proof (cases "d = Up \<and> \<not> down_cnt s \<le> 1")
    case True
    with q show ?thesis
      by (intro exI [of _ "[AdminRequest ifn d]"]) (auto simp add: set_admin_state_up)
  next
    case False
    with q show ?thesis
      by (intro exI [of _ "[AdminRequest ifn d, LinkState ifn d]"])
        (cases d; auto simp add: set_admin_state_up set_admin_state_down)
  qed
qed

section \<open>The steps before the admin-state request are oblivious\<close>

lemma oblivious_set_sysfs:
  assumes "\<And>w. v \<noteq> PNone \<Longrightarrow> validate e v \<Longrightarrow> converted e v = Inr w \<Longrightarrow>
             Q (Write (location e) ifn w)"
  shows "oblivious Q (set_sysfs ifn name e v)"
proof -
  have "set_sysfs ifn name e v = ok \<or> (\<exists>err. set_sysfs ifn name e v = raise err)
      \<or> (\<exists>w. v \<noteq> PNone \<and> validate e v \<and> converted e v = Inr w
             \<and> set_sysfs ifn name e v = emit (Write (location e) ifn w))"
    by (cases "converted e v") (auto simp add: set_sysfs_def write_sysfs_def)
  with assms show ?thesis
    by (auto intro: oblivious_ok oblivious_raise oblivious_emit)
qed

lemma oblivious_set_interface:
  assumes "\<And>c. command_set name = Some c \<Longrightarrow> Q (Command c ifn v)"
    and "\<And>e w. command_set name = None \<Longrightarrow> sysfs_set name = Some e \<Longrightarrow> v \<noteq> PNone \<Longrightarrow>
           validate e v \<Longrightarrow> converted e v = Inr w \<Longrightarrow> Q (Write (location e) ifn w)"
  shows "oblivious Q (set_interface ifn name v)"
proof (cases "command_set name")
  case (Some c)
  with assms(1) show ?thesis
    by (simp add: set_interface_def run_command_def oblivious_emit)
next
  case None
  show ?thesis
  proof (cases "sysfs_set name")
    case None
    with \<open>command_set name = None\<close> show ?thesis
      by (simp add: set_interface_def oblivious_raise)
  next
    case (Some e)
    with \<open>command_set name = None\<close> assms(2) show ?thesis
      by (simp add: set_interface_def oblivious_set_sysfs)
  qed
qed

lemma oblivious_remove_members:
  assumes "\<And>p. Q (Command del_port_cmd ifn (PStr p))"
  shows "oblivious Q (remove_members ifn config)"
proof -
  have "oblivious Q (del_port ifn p)" for p
    unfolding del_port_def
    by (rule oblivious_set_interface) (use assms in \<open>simp_all add: command_set_simps\<close>)
  then show ?thesis
    unfolding remove_members_def Let_def
    by (auto intro!: oblivious_ok oblivious_raise oblivious_run_steps split: sum.splits)
qed

lemma oblivious_port_steps:
  assumes "Q (FlushAddrs p)" and "Q (Command add_port_cmd ifn (PStr p))"
    and "\<And>w. py_get c ''cost'' = Inr w \<Longrightarrow> w \<noteq> PNone \<Longrightarrow> assert_positive w \<Longrightarrow>
           Q (Write ''/sys/class/net/{ifname}/brport/path_cost'' p w)"
    and "\<And>w. py_get c ''priority'' = Inr w \<Longrightarrow> w \<noteq> PNone \<Longrightarrow> assert_positive w \<Longrightarrow>
           Q (Write ''/sys/class/net/{ifname}/brport/priority'' p w)"
  shows "oblivious Q (port_steps ifn (p, c))"
proof -
  have 1: "oblivious Q (flush_addrs p)"
    using assms(1) by (simp add: flush_addrs_def oblivious_emit)
  have 2: "oblivious Q (add_port ifn p)"
    unfolding add_port_def
    by (rule oblivious_set_interface) (use assms(2) in \<open>simp_all add: command_set_simps\<close>)
  have 3: "oblivious Q (case py_get c ''cost'' of Inl e \<Rightarrow> raise e | Inr v \<Rightarrow> set_path_cost p v)"
  proof (cases "py_get c ''cost''")
    case (Inl e)
    then show ?thesis by (simp add: oblivious_raise)
  next
    case (Inr v)
    have "oblivious Q (set_interface p ''path_cost'' v)"
      by (rule oblivious_set_interface)
        (use assms(3) Inr in \<open>auto simp add: command_set_simps sysfs_set_simps converted_def\<close>)
    with Inr show ?thesis by (simp add: set_path_cost_def)
  qed
  have 4: "oblivious Q (case py_get c ''priority'' of Inl e \<Rightarrow> raise e
                         | Inr v \<Rightarrow> set_path_priority p v)"
  proof (cases "py_get c ''priority''")
    case (Inl e)
    then show ?thesis by (simp add: oblivious_raise)
  next
    case (Inr v)
    have "oblivious Q (set_interface p ''path_priority'' v)"
      by (rule oblivious_set_interface)
        (use assms(4) Inr in \<open>auto simp add: command_set_simps sysfs_set_simps converted_def\<close>)
    with Inr show ?thesis by (simp add: set_path_priority_def)
  qed
  show ?thesis
    unfolding port_steps_def
    by (simp only: prod.case) (rule oblivious_run_steps, use 1 2 3 4 in auto)
qed

lemma oblivious_add_members:
  assumes "\<And>p. Q (FlushAddrs p)" and "\<And>p. Q (Command add_port_cmd ifn (PStr p))"
    and "\<And>p c w. (p, c) \<in> set (member_items config) \<Longrightarrow> py_get c ''cost'' = Inr w \<Longrightarrow>
           w \<noteq> PNone \<Longrightarrow> assert_positive w \<Longrightarrow>
           Q (Write ''/sys/class/net/{ifname}/brport/path_cost'' p w)"
    and "\<And>p c w. (p, c) \<in> set (member_items config) \<Longrightarrow> py_get c ''priority'' = Inr w \<Longrightarrow>
           w \<noteq> PNone \<Longrightarrow> assert_positive w \<Longrightarrow>
           Q (Write ''/sys/class/net/{ifname}/brport/priority'' p w)"
  shows "oblivious Q (add_members ifn config)"
proof (cases "vyos_dict_search [''member'', ''interface''] (PDict config)")
  case (PDict d)
  then have d: "member_items config = d"
    by (simp add: member_items_def)
  have "oblivious Q (port_steps ifn item)" if "item \<in> set d" for item
  proof -
    obtain p c where item: "item = (p, c)" by (cases item)
    show ?thesis
      unfolding item
      by (rule oblivious_port_steps) (use assms that d item in auto)
  qed
  then have "oblivious Q (run_steps (map (port_steps ifn) d))"
    by (intro oblivious_run_steps) auto
  with PDict show ?thesis
    by (simp add: add_members_def oblivious_ok)
qed (simp_all add: add_members_def oblivious_ok oblivious_raise)

lemma config_steps_eq:
  "config_steps ifn config =
     Interface_update ifn config
     # map (\<lambda>(name, v). set_interface ifn name v) (setter_args config)
     @ [remove_members ifn config, add_members ifn config]"
  by (simp add: config_steps_def setter_args_def setter_defs)

lemma setter_args_not_command:
  "(name, v) \<in> set (setter_args config) \<Longrightarrow> command_set name = None"
  by (auto simp add: setter_args_def command_set_simps)

lemma oblivious_config_step:
  assumes "\<And>name v e w. (name, v) \<in> set (setter_args config) \<Longrightarrow> sysfs_set name = Some e \<Longrightarrow>
             v \<noteq> PNone \<Longrightarrow> validate e v \<Longrightarrow> converted e v = Inr w \<Longrightarrow>
             Q (Write (location e) ifn w)"
    and "\<And>p. Q (Command del_port_cmd ifn (PStr p))"
    and "\<And>p. Q (FlushAddrs p)" and "\<And>p. Q (Command add_port_cmd ifn (PStr p))"
    and "\<And>p c w. (p, c) \<in> set (member_items config) \<Longrightarrow> py_get c ''cost'' = Inr w \<Longrightarrow>
           w \<noteq> PNone \<Longrightarrow> assert_positive w \<Longrightarrow>
           Q (Write ''/sys/class/net/{ifname}/brport/path_cost'' p w)"
    and "\<And>p c w. (p, c) \<in> set (member_items config) \<Longrightarrow> py_get c ''priority'' = Inr w \<Longrightarrow>
           w \<noteq> PNone \<Longrightarrow> assert_positive w \<Longrightarrow>
           Q (Write ''/sys/class/net/{ifname}/brport/priority'' p w)"
    and "f \<in> set (config_steps ifn config)"
  shows "oblivious Q f"
proof -
  have s: "oblivious Q (set_interface ifn name v)"
    if "(name, v) \<in> set (setter_args config)" for name v
  proof (rule oblivious_set_interface)
    fix c assume "command_set name = Some c"
    with setter_args_not_command [OF that] show "Q (Command c ifn v)"
      by simp
  next
    fix e w
    assume "command_set name = None"
      "sysfs_set name = Some e" "v \<noteq> PNone" "validate e v" "converted e v = Inr w"
    with that assms(1) show "Q (Write (location e) ifn w)" by blast
  qed
  from assms(7) consider "f = Interface_update ifn config"
    | name v where "(name, v) \<in> set (setter_args config)" "f = set_interface ifn name v"
    | "f = remove_members ifn config" | "f = add_members ifn config"
    unfolding config_steps_eq by auto
  then show ?thesis
  proof cases
    case 1
    then show ?thesis by (simp add: Interface_update_def oblivious_ok)
  next
    case 2
    with s show ?thesis by simp
  next
    case 3
    with assms(2) show ?thesis by (simp add: oblivious_remove_members)
  next
    case 4
    show ?thesis unfolding 4
      by (rule oblivious_add_members) (use assms(3-6) in auto)
  qed
qed

lemma oblivious_config_steps:
  assumes "\<And>name v e w. (name, v) \<in> set (setter_args config) \<Longrightarrow> sysfs_set name = Some e \<Longrightarrow>
             v \<noteq> PNone \<Longrightarrow> validate e v \<Longrightarrow> converted e v = Inr w \<Longrightarrow>
             Q (Write (location e) ifn w)"
    and "\<And>p. Q (Command del_port_cmd ifn (PStr p))"
    and "\<And>p. Q (FlushAddrs p)" and "\<And>p. Q (Command add_port_cmd ifn (PStr p))"
    and "\<And>p c w. (p, c) \<in> set (member_items config) \<Longrightarrow> py_get c ''cost'' = Inr w \<Longrightarrow>
           w \<noteq> PNone \<Longrightarrow> assert_positive w \<Longrightarrow>
           Q (Write ''/sys/class/net/{ifname}/brport/path_cost'' p w)"
    and "\<And>p c w. (p, c) \<in> set (member_items config) \<Longrightarrow> py_get c ''priority'' = Inr w \<Longrightarrow>
           w \<noteq> PNone \<Longrightarrow> assert_positive w \<Longrightarrow>
           Q (Write ''/sys/class/net/{ifname}/brport/priority'' p w)"
  shows "oblivious Q (run_steps (config_steps ifn config))"
  by (rule oblivious_run_steps, rule oblivious_config_step [of config Q ifn]) (use assms in auto)

section \<open>The shape of a pass\<close>

lemma run_steps_append:
  "run_steps (fs @ gs) s =
     (case run_steps fs s of (None, s') \<Rightarrow> run_steps gs s' | (Some e, s') \<Rightarrow> (Some e, s'))"
  by (induction fs arbitrary: s) (auto split: prod.splits option.splits)

lemma run_steps_single: "run_steps [g] s = g s"
  by (cases "g s") (auto split: option.splits)

lemma update_eq:
  "update ifn config s =
     (case run_steps (config_steps ifn config) s of
        (None, s') \<Rightarrow> set_admin_state ifn (admin_direction config) s'
      | (Some e, s') \<Rightarrow> (Some e, s'))"
proof -
  have "update ifn config =
      run_steps (config_steps ifn config @ [set_admin_state ifn (admin_direction config)])"
    by (simp add: update_def config_steps_def)
  then show ?thesis
    by (simp only: run_steps_append run_steps_single)
qed

lemma set_admin_state_replay:
  "set_admin_state ifn d s = (None, replay (admin_ops ifn d (down_cnt s)) s)"
  by (cases d) (simp_all add: set_admin_state_up set_admin_state_down admin_ops_def)

lemma perform_not_admin:
  "\<not> is_admin x \<Longrightarrow> down_cnt (perform x s) = down_cnt s \<and> admin_up (perform x s) = admin_up s"
  by (cases "(x, s)" rule: effect.cases) (simp_all add: perform_def)

lemma replay_not_admin:
  "(\<And>x. x \<in> set xs \<Longrightarrow> \<not> is_admin x) \<Longrightarrow>
   down_cnt (replay xs s) = down_cnt s \<and> admin_up (replay xs s) = admin_up s"
  by (induction xs arbitrary: s) (simp_all add: perform_not_admin)

lemma is_admin_admin_ops: "x \<in> set (admin_ops ifn d n) \<Longrightarrow> is_admin x"
  by (auto simp add: admin_ops_def split: if_splits)

lemma update_shape:
  assumes "\<And>name v e w. (name, v) \<in> set (setter_args config) \<Longrightarrow> sysfs_set name = Some e \<Longrightarrow>
             v \<noteq> PNone \<Longrightarrow> validate e v \<Longrightarrow> converted e v = Inr w \<Longrightarrow>
             Q (Write (location e) ifn w)"
    and "\<And>p. Q (Command del_port_cmd ifn (PStr p))"
    and "\<And>p. Q (FlushAddrs p)" and "\<And>p. Q (Command add_port_cmd ifn (PStr p))"
    and "\<And>p c w. (p, c) \<in> set (member_items config) \<Longrightarrow> py_get c ''cost'' = Inr w \<Longrightarrow>
           w \<noteq> PNone \<Longrightarrow> assert_positive w \<Longrightarrow>
           Q (Write ''/sys/class/net/{ifname}/brport/path_cost'' p w)"
    and "\<And>p c w. (p, c) \<in> set (member_items config) \<Longrightarrow> py_get c ''priority'' = Inr w \<Longrightarrow>
           w \<noteq> PNone \<Longrightarrow> assert_positive w \<Longrightarrow>
           Q (Write ''/sys/class/net/{ifname}/brport/priority'' p w)"
  obtains err xs where "\<And>x. x \<in> set xs \<Longrightarrow> Q x \<and> \<not> is_admin x"
    and "\<And>s. update ifn config s =
           (case err of
              None \<Rightarrow> (None, replay (xs @ admin_ops ifn (admin_direction config) (down_cnt s)) s)
            | Some e \<Rightarrow> (Some e, replay xs s))"
proof -
  have "oblivious (\<lambda>x. Q x \<and> \<not> is_admin x) (run_steps (config_steps ifn config))"
    by (rule oblivious_config_steps) (use assms in auto)
  then obtain err xs where xs: "\<And>x. x \<in> set xs \<Longrightarrow> Q x \<and> \<not> is_admin x"
    and run: "\<And>s. run_steps (config_steps ifn config) s = (err, replay xs s)"
    unfolding oblivious_def by blast
  have "update ifn config s =
           (case err of
              None \<Rightarrow> (None, replay (xs @ admin_ops ifn (admin_direction config) (down_cnt s)) s)
            | Some e \<Rightarrow> (Some e, replay xs s))" for s
    using replay_not_admin [of xs s] xs
    by (simp add: update_eq run set_admin_state_replay split: option.splits)
  with xs that show thesis by blast
qed

lemma filter_all: "(\<And>x. x \<in> set xs \<Longrightarrow> P x) \<Longrightarrow> filter P xs = xs"
  by (induction xs) simp_all

lemma filter_none: "(\<And>x. x \<in> set xs \<Longrightarrow> \<not> P x) \<Longrightarrow> filter P xs = []"
  by (induction xs) simp_all

lemma update_emitted:
  obtains err xs where "\<And>x. x \<in> set xs \<Longrightarrow> \<not> is_admin x"
    and "\<And>s. fst (update ifn config s) = err"
    and "\<And>s. emitted (update ifn config) s =
           (case err of
              None \<Rightarrow> xs @ admin_ops ifn (admin_direction config) (down_cnt s)
            | Some e \<Rightarrow> xs)"
proof -
  obtain err xs where xs: "\<And>x. x \<in> set xs \<Longrightarrow> True \<and> \<not> is_admin x"
    and u: "\<And>s. update ifn config s =
           (case err of
              None \<Rightarrow> (None, replay (xs @ admin_ops ifn (admin_direction config) (down_cnt s)) s)
            | Some e \<Rightarrow> (Some e, replay xs s))"
    by (rule update_shape [of config "\<lambda>_. True" ifn]) auto
  have "fst (update ifn config s) = err" for s
    by (simp add: u split: option.splits)
  moreover have "emitted (update ifn config) s =
           (case err of
              None \<Rightarrow> xs @ admin_ops ifn (admin_direction config) (down_cnt s)
            | Some e \<Rightarrow> xs)" for s
    by (cases err) (simp_all add: u emitted_replay)
  ultimately show thesis using xs that by blast
qed

section \<open>What a pass emits and the prior state\<close>



section \<open>The order of the operations of a pass\<close>

lemmas eval_defs =
  Interface_update_def ok_def raise_def setter_defs set_interface_def command_set_simps
  sysfs_set_simps set_sysfs_def converted_def assert_positive_def assert_boolean_def
  centiseconds_def int_of_string_def strip_def is_space_def parse_unsigned_def is_digit_def
  digit_value_def write_sysfs_def run_command_def flush_addrs_def emit_def dict_get_def
  dict_has_def remove_members_def add_members_def port_steps_def admin_direction_def

lemma update_replay:
  assumes "run_steps (config_steps ifn config) s = (None, replay xs s)"
    and "\<And>x. x \<in> set xs \<Longrightarrow> \<not> is_admin x"
  shows "update ifn config s =
           (None, replay (xs @ admin_ops ifn (admin_direction config) (down_cnt s)) s)"
  using replay_not_admin [of xs s] assms
  by (simp add: update_eq set_admin_state_replay)

lemma scenario_steps:
  "run_steps (config_steps ifn
      [(''forwarding_delay'', PInt 15),
       (''member'', PDict [(''interface'', PDict [(''eth0'', PDict [(''cost'', PInt 100)])])])]) s =
   (None, replay
     [Write ''/sys/class/net/{ifname}/bridge/forward_delay'' ifn (PInt 1500),
      Write ''/sys/class/net/{ifname}/bridge/stp_state'' ifn (PStr ''0''),
      Write ''/sys/class/net/{ifname}/bridge/multicast_querier'' ifn (PStr ''0''),
      FlushAddrs ''eth0'',
      Command add_port_cmd ifn (PStr ''eth0''),
      Write ''/sys/class/net/{ifname}/brport/path_cost'' ''eth0'' (PInt 100)] s)"
  by (simp add: config_steps_def eval_defs)


section \<open>The store and the membership after a list of operations\<close>

lemma sysfs_perform:
  "sysfs (perform x s) k = (case x of Write loc ifn w \<Rightarrow> if k = (loc, ifn) then Some w else sysfs s k
                            | _ \<Rightarrow> sysfs s k)"
  by (cases "(x, s)" rule: effect.cases) (simp_all add: perform_def)

lemma master_perform:
  "master (perform x s) p =
     (if links_port p x
      then (case x of Command c ifn v \<Rightarrow> if c = add_port_cmd then Some ifn else None
            | _ \<Rightarrow> None)
      else master s p)"
  by (cases "(x, s)" rule: effect.cases)
    (auto simp add: perform_def add_port_cmd_def del_port_cmd_def)

lemma sysfs_perform_other: "\<not> writes_to k x \<Longrightarrow> sysfs (perform x s) k = sysfs s k"
  by (cases x) (auto simp add: sysfs_perform)

lemma sysfs_perform_same: "writes_to k x \<Longrightarrow> sysfs (perform x s) k = sysfs (perform x t) k"
  by (cases x) (auto simp add: sysfs_perform)

lemma master_perform_other: "\<not> links_port p x \<Longrightarrow> master (perform x s) p = master s p"
  by (simp add: master_perform)

lemma master_perform_same: "links_port p x \<Longrightarrow> master (perform x s) p = master (perform x t) p"
  by (simp add: master_perform)

lemma sysfs_replay_frame:
  "(\<And>x. x \<in> set xs \<Longrightarrow> \<not> writes_to k x) \<Longrightarrow> sysfs (replay xs s) k = sysfs s k"
  by (induction xs arbitrary: s) (simp_all add: sysfs_perform_other)

lemma master_replay_frame:
  "(\<And>x. x \<in> set xs \<Longrightarrow> \<not> links_port p x) \<Longrightarrow> master (replay xs s) p = master s p"
  by (induction xs arbitrary: s) (simp_all add: master_perform_other)

lemma sysfs_replay_same:
  "\<exists>x\<in>set xs. writes_to k x \<Longrightarrow> sysfs (replay xs s) k = sysfs (replay xs t) k"
proof (induction xs arbitrary: s t)
  case Nil
  then show ?case by simp
next
  case (Cons x xs)
  show ?case
  proof (cases "\<exists>y\<in>set xs. writes_to k y")
    case True
    show ?thesis using Cons.IH [OF True, of "perform x s" "perform x t"] by simp
  next
    case False
    with Cons.prems have x: "writes_to k x" by auto
    from False have "sysfs (replay xs u) k = sysfs u k" for u
      by (intro sysfs_replay_frame) auto
    then show ?thesis
      using sysfs_perform_same [OF x, of s t] by simp
  qed
qed

lemma master_replay_same:
  "\<exists>x\<in>set xs. links_port p x \<Longrightarrow> master (replay xs s) p = master (replay xs t) p"
proof (induction xs arbitrary: s t)
  case Nil
  then show ?case by simp
next
  case (Cons x xs)
  show ?case
  proof (cases "\<exists>y\<in>set xs. links_port p y")
    case True
    show ?thesis using Cons.IH [OF True, of "perform x s" "perform x t"] by simp
  next
    case False
    with Cons.prems have x: "links_port p x" by auto
    from False have "master (replay xs u) p = master u p" for u
      by (intro master_replay_frame) auto
    then show ?thesis
      using master_perform_same [OF x, of s t] by simp
  qed
qed

lemma sysfs_replay_twice:
  assumes "sysfs t = sysfs (replay xs s)"
  shows "sysfs (replay xs t) = sysfs (replay xs s)"
proof
  fix k
  show "sysfs (replay xs t) k = sysfs (replay xs s) k"
  proof (cases "\<exists>x\<in>set xs. writes_to k x")
    case True
    then show ?thesis by (rule sysfs_replay_same)
  next
    case False
    then have "sysfs (replay xs t) k = sysfs t k"
      by (intro sysfs_replay_frame) auto
    with assms show ?thesis by simp
  qed
qed

lemma master_replay_twice:
  assumes "master t = master (replay xs s)"
  shows "master (replay xs t) = master (replay xs s)"
proof
  fix p
  show "master (replay xs t) p = master (replay xs s) p"
  proof (cases "\<exists>x\<in>set xs. links_port p x")
    case True
    then show ?thesis by (rule master_replay_same)
  next
    case False
    then have "master (replay xs t) p = master t p"
      by (intro master_replay_frame) auto
    with assms show ?thesis by simp
  qed
qed

lemma sysfs_replay_last:
  assumes "\<And>w. Write loc ifn w \<in> set xs \<Longrightarrow> w = t" and "Write loc ifn t \<in> set xs"
  shows "sysfs (replay xs s) (loc, ifn) = Some t"
  using assms
proof (induction xs arbitrary: s rule: rev_induct)
  case Nil
  then show ?case by simp
next
  case (snoc x xs)
  have w: "w = t" if "Write loc ifn w \<in> set xs" for w
    by (rule snoc.prems(1)) (use that in simp)
  show ?case
  proof (cases "x = Write loc ifn t")
    case True
    then show ?thesis by (simp add: sysfs_perform)
  next
    case False
    have nw: "\<not> writes_to (loc, ifn) x"
    proof
      assume "writes_to (loc, ifn) x"
      then obtain v where x: "x = Write loc ifn v" by (cases x) auto
      have "v = t" by (rule snoc.prems(1)) (simp add: x)
      with x False show False by simp
    qed
    from False snoc.prems(2) have mem: "Write loc ifn t \<in> set xs" by simp
    have "sysfs (replay xs s) (loc, ifn) = Some t"
      by (rule snoc.IH [OF w mem])
    then show ?thesis by (simp add: sysfs_perform_other [OF nw])
  qed
qed

lemma admin_ops_fields:
  "sysfs (replay (admin_ops ifn d n) s) = sysfs s"
  "master (replay (admin_ops ifn d n) s) = master s"
  "down_cnt (replay (admin_ops ifn d n) s) = (case d of Up \<Rightarrow> down_cnt s - 1 | Down \<Rightarrow> down_cnt s + 1)"
  "admin_up (replay (admin_ops ifn d n) s) =
     (if d = Down then False else if n \<le> 1 then True else admin_up s)"
  by (cases d; simp add: admin_ops_def perform_def)+

section \<open>Applying a configuration twice\<close>

lemma run_steps_mem:
  assumes "\<And>g. g \<in> set fs \<Longrightarrow> emits Q g" and "run_steps fs s = (None, s')" and "f \<in> set fs"
  shows "\<exists>s1 s2 ys zs. f s1 = (None, s2) \<and> s1 = replay ys s \<and> s' = replay zs s2
           \<and> (\<forall>x\<in>set ys. Q x) \<and> (\<forall>x\<in>set zs. Q x)"
  using assms
proof (induction fs arbitrary: s)
  case Nil
  then show ?case by simp
next
  case (Cons g fs)
  from Cons.prems(2) obtain t where g: "g s = (None, t)" and rest: "run_steps fs t = (None, s')"
    by (cases "g s") (auto split: option.splits)
  have "emits Q g" by (rule Cons.prems(1)) simp
  with g obtain us where us: "\<forall>x\<in>set us. Q x" "t = replay us s"
    unfolding emits_def by (metis snd_conv)
  have all: "emits Q h" if "h \<in> set fs" for h
    by (rule Cons.prems(1)) (use that in simp)
  show ?case
  proof (cases "f = g")
    case True
    have "emits Q (run_steps fs)" by (rule emits_run_steps) (rule all)
    with rest obtain zs where zs: "\<forall>x\<in>set zs. Q x" "s' = replay zs t"
      unfolding emits_def by (metis snd_conv)
    show ?thesis
      by (rule exI [of _ s], rule exI [of _ t], rule exI [of _ "[]"], rule exI [of _ zs])
        (use True g zs in simp)
  next
    case False
    with Cons.prems(3) have "f \<in> set fs" by simp
    from Cons.IH [OF all rest this] obtain s1 s2 ys zs
      where *: "f s1 = (None, s2)" "s1 = replay ys t" "s' = replay zs s2"
        "\<forall>x\<in>set ys. Q x" "\<forall>x\<in>set zs. Q x"
      by blast
    show ?thesis
      by (rule exI [of _ s1], rule exI [of _ s2], rule exI [of _ "us @ ys"], rule exI [of _ zs])
        (use * us in auto)
  qed
qed

lemma update_fields:
  assumes "fst (update ifn config s) = None"
  shows "admin_up (snd (update ifn config s)) =
           (if admin_direction config = Down then False
            else if down_cnt s \<le> 1 then True else admin_up s)"
    and "down_cnt (snd (update ifn config s)) =
           (case admin_direction config of Up \<Rightarrow> down_cnt s - 1 | Down \<Rightarrow> down_cnt s + 1)"
proof -
  obtain err xs where xs: "\<And>x. x \<in> set xs \<Longrightarrow> True \<and> \<not> is_admin x"
    and u: "\<And>s. update ifn config s =
           (case err of
              None \<Rightarrow> (None, replay (xs @ admin_ops ifn (admin_direction config) (down_cnt s)) s)
            | Some e \<Rightarrow> (Some e, replay xs s))"
    by (rule update_shape [of config "\<lambda>_. True" ifn]) auto
  from assms have err: "err = None"
    by (cases err) (simp_all add: u)
  from xs have na: "down_cnt (replay xs s) = down_cnt s \<and> admin_up (replay xs s) = admin_up s"
    by (intro replay_not_admin) simp
  show "admin_up (snd (update ifn config s)) =
           (if admin_direction config = Down then False
            else if down_cnt s \<le> 1 then True else admin_up s)"
    by (simp add: u err admin_ops_fields na)
  show "down_cnt (snd (update ifn config s)) =
           (case admin_direction config of Up \<Rightarrow> down_cnt s - 1 | Down \<Rightarrow> down_cnt s + 1)"
    by (cases "admin_direction config") (simp_all add: u err admin_ops_fields na)
qed

lemma empty_steps:
  "run_steps (config_steps ifn []) s =
   (None, replay
     [Write ''/sys/class/net/{ifname}/bridge/stp_state'' ifn (PStr ''0''),
      Write ''/sys/class/net/{ifname}/bridge/multicast_querier'' ifn (PStr ''0'')] s)"
  by (simp add: config_steps_def eval_defs)

lemma disable_steps:
  "run_steps (config_steps ifn [(''disable'', PDict [])]) s =
   (None, replay
     [Write ''/sys/class/net/{ifname}/bridge/stp_state'' ifn (PStr ''0''),
      Write ''/sys/class/net/{ifname}/bridge/multicast_querier'' ifn (PStr ''0'')] s)"
  by (simp add: config_steps_def eval_defs)

lemma empty_ok: "fst (update ifn [] s) = None"
proof -
  have "fst (update ifn [] s) = fst (None :: error option, t)" for t :: system
    by (subst update_replay [OF empty_steps]) auto
  then show ?thesis by simp
qed

lemma disable_ok: "fst (update ifn [(''disable'', PDict [])] s) = None"
proof -
  have "fst (update ifn [(''disable'', PDict [])] s) = fst (None :: error option, t)"
    for t :: system
    by (subst update_replay [OF disable_steps]) auto
  then show ?thesis by simp
qed

text \<open>
  C9, as amended. For every configuration and every state, a second pass with the same
  configuration leaves the property store and the port membership as the first pass left
  them, and the admin state too when the configuration has the \<open>disable\<close> key or the
  count before the first pass is not 2. Attaching a port that is attached to the bridge
  leaves the membership unchanged, and a setter called twice with the same value leaves the
  store as one call does.
\<close>

theorem update_twice:
  "sysfs (snd (update ifn config (snd (update ifn config s)))) = sysfs (snd (update ifn config s))
   \<and> master (snd (update ifn config (snd (update ifn config s)))) =
       master (snd (update ifn config s))
   \<and> (down_cnt s \<noteq> 2 \<or> dict_has config ''disable'' \<longrightarrow>
        admin_up (snd (update ifn config (snd (update ifn config s)))) =
          admin_up (snd (update ifn config s)))
   \<and> (master s p = Some ifn \<longrightarrow> master (snd (add_port ifn p s)) = master s)
   \<and> sysfs (snd (set_interface ifn name v (snd (set_interface ifn name v s)))) =
       sysfs (snd (set_interface ifn name v s))"
proof -
  let ?d = "admin_direction config"
  obtain err xs where xs: "\<And>x. x \<in> set xs \<Longrightarrow> True \<and> \<not> is_admin x"
    and u: "\<And>s. update ifn config s =
           (case err of
              None \<Rightarrow> (None, replay (xs @ admin_ops ifn ?d (down_cnt s)) s)
            | Some e \<Rightarrow> (Some e, replay xs s))"
    by (rule update_shape [of config "\<lambda>_. True" ifn]) auto
  have f: "fst (update ifn config t) = err" for t
    by (cases err) (simp_all add: u)
  have o: "sysfs (snd (update ifn config t)) = sysfs (replay xs t)
         \<and> master (snd (update ifn config t)) = master (replay xs t)" for t
    by (cases err) (simp_all add: u admin_ops_fields)
  let ?s1 = "snd (update ifn config s)"
  have 1: "sysfs (snd (update ifn config ?s1)) = sysfs ?s1"
    using sysfs_replay_twice [of ?s1 xs s] o by simp
  have 2: "master (snd (update ifn config ?s1)) = master ?s1"
    using master_replay_twice [of ?s1 xs s] o by simp
  have 3: "admin_up (snd (update ifn config ?s1)) = admin_up ?s1"
    if "down_cnt s \<noteq> 2 \<or> dict_has config ''disable''"
  proof (cases err)
    case None
    with f have ok: "fst (update ifn config s) = None" "fst (update ifn config ?s1) = None"
      by simp_all
    show ?thesis
      using that
      by (cases ?d)
        (auto simp add: update_fields [OF ok(1)] update_fields [OF ok(2)]
          admin_direction_def split: if_splits)
  next
    case (Some e)
    from xs have "admin_up (replay xs t) = admin_up t" for t
      using replay_not_admin [of xs t] by simp
    with Some show ?thesis by (simp add: u)
  qed
  have 4: "master (snd (add_port ifn p s)) = master s" if "master s p = Some ifn"
    using that
    by (auto simp add: add_port_def set_interface_def command_set_simps run_command_def
        emit_def perform_def)
  obtain e ys where ys: "\<And>t. set_interface ifn name v t = (e, replay ys t)"
    using oblivious_set_interface [of name "\<lambda>_. True" ifn v]
    unfolding oblivious_def by auto
  have 5: "sysfs (snd (set_interface ifn name v (snd (set_interface ifn name v s)))) =
       sysfs (snd (set_interface ifn name v s))"
    using sysfs_replay_twice [of "replay ys s" ys s] by (simp add: ys)
  from 1 2 3 4 5 show ?thesis by blast
qed

theorem update_twice_witness:
  "down_cnt fresh_system \<noteq> 2
   \<and> admin_up (snd (update ''br0'' [] (snd (update ''br0'' [] fresh_system))))
   \<and> admin_up (snd (update ''br0'' [] fresh_system))
   \<and> master (snd (add_port ''br0'' ''eth0'' fresh_system)) ''eth0'' = Some ''br0''
   \<and> master (snd (add_port ''br0'' ''eth0'' (snd (add_port ''br0'' ''eth0'' fresh_system)))) =
       master (snd (add_port ''br0'' ''eth0'' fresh_system))"
proof -
  have a: "down_cnt fresh_system \<noteq> 2" "down_cnt fresh_system \<le> 1"
    by (simp_all add: fresh_system_def)
  have b: "admin_up (snd (update ''br0'' [] fresh_system))"
    using a by (simp add: update_fields [OF empty_ok] admin_direction_def dict_has_def)
  have c: "master (snd (add_port ''br0'' ''eth0'' fresh_system)) ''eth0'' = Some ''br0''"
    by (simp add: add_port_def set_interface_def command_set_simps run_command_def
        emit_def perform_def)
  from update_twice [of "''br0''" "[]" fresh_system "''eth0''"]
    update_twice [of "''br0''" "[]" "snd (add_port ''br0'' ''eth0'' fresh_system)" "''eth0''"]
    a b c
  show ?thesis by simp
qed

text \<open>
  C9 as stated fails: on a device to which the configuration with the \<open>disable\<close> key was
  applied twice, one pass with the empty configuration leaves the device down and a second
  pass with the same configuration brings it up.
\<close>

theorem update_twice_counterexample:
  "\<not> admin_up (snd (update ''br0'' []
        (snd (update ''br0'' [(''disable'', PDict [])]
          (snd (update ''br0'' [(''disable'', PDict [])] fresh_system))))))
   \<and> admin_up (snd (update ''br0'' [] (snd (update ''br0'' []
        (snd (update ''br0'' [(''disable'', PDict [])]
          (snd (update ''br0'' [(''disable'', PDict [])] fresh_system))))))))"
  by (simp add: update_fields [OF empty_ok] update_fields [OF disable_ok]
      admin_direction_def dict_has_def fresh_system_def)

section \<open>What the setters of a pass leave in the store\<close>

lemma update_steps:
  "update ifn config =
     run_steps (config_steps ifn config @ [set_admin_state ifn (admin_direction config)])"
  by (simp add: update_def config_steps_def)

lemma emits_mono: "emits P f \<Longrightarrow> (\<And>x. P x \<Longrightarrow> Q x) \<Longrightarrow> emits Q f"
  unfolding emits_def by meson

lemma emits_update_step:
  assumes "\<And>name v e w. (name, v) \<in> set (setter_args config) \<Longrightarrow> sysfs_set name = Some e \<Longrightarrow>
             v \<noteq> PNone \<Longrightarrow> validate e v \<Longrightarrow> converted e v = Inr w \<Longrightarrow>
             Q (Write (location e) ifn w)"
    and "\<And>p. Q (Command del_port_cmd ifn (PStr p))"
    and "\<And>p. Q (FlushAddrs p)" and "\<And>p. Q (Command add_port_cmd ifn (PStr p))"
    and "\<And>p c w. (p, c) \<in> set (member_items config) \<Longrightarrow> py_get c ''cost'' = Inr w \<Longrightarrow>
           w \<noteq> PNone \<Longrightarrow> assert_positive w \<Longrightarrow>
           Q (Write ''/sys/class/net/{ifname}/brport/path_cost'' p w)"
    and "\<And>p c w. (p, c) \<in> set (member_items config) \<Longrightarrow> py_get c ''priority'' = Inr w \<Longrightarrow>
           w \<noteq> PNone \<Longrightarrow> assert_positive w \<Longrightarrow>
           Q (Write ''/sys/class/net/{ifname}/brport/priority'' p w)"
    and "f \<in> set (config_steps ifn config @ [set_admin_state ifn (admin_direction config)])"
  shows "emits (\<lambda>x. Q x \<or> is_admin x) f"
proof (cases "f \<in> set (config_steps ifn config)")
  case True
  have "oblivious Q f"
    by (rule oblivious_config_step [of config Q ifn]) (use assms(1-6) True in auto)
  then have "emits Q f" by (rule oblivious_emits)
  then show ?thesis by (rule emits_mono) simp
next
  case False
  with assms(7) have "f = set_admin_state ifn (admin_direction config)" by simp
  then show ?thesis by (simp add: emits_set_admin_state)
qed

lemma emits_update:
  assumes "\<And>name v e w. (name, v) \<in> set (setter_args config) \<Longrightarrow> sysfs_set name = Some e \<Longrightarrow>
             v \<noteq> PNone \<Longrightarrow> validate e v \<Longrightarrow> converted e v = Inr w \<Longrightarrow>
             Q (Write (location e) ifn w)"
    and "\<And>p. Q (Command del_port_cmd ifn (PStr p))"
    and "\<And>p. Q (FlushAddrs p)" and "\<And>p. Q (Command add_port_cmd ifn (PStr p))"
    and "\<And>p c w. (p, c) \<in> set (member_items config) \<Longrightarrow> py_get c ''cost'' = Inr w \<Longrightarrow>
           w \<noteq> PNone \<Longrightarrow> assert_positive w \<Longrightarrow>
           Q (Write ''/sys/class/net/{ifname}/brport/path_cost'' p w)"
    and "\<And>p c w. (p, c) \<in> set (member_items config) \<Longrightarrow> py_get c ''priority'' = Inr w \<Longrightarrow>
           w \<noteq> PNone \<Longrightarrow> assert_positive w \<Longrightarrow>
           Q (Write ''/sys/class/net/{ifname}/brport/priority'' p w)"
  shows "emits (\<lambda>x. Q x \<or> is_admin x) (update ifn config)"
  unfolding update_steps
  by (rule emits_run_steps, rule emits_update_step [of config Q ifn]) (use assms in auto)

lemma map_of_distinct_values:
  assumes "distinct (map (f \<circ> snd) xs)" and "map_of xs a = Some x" and "map_of xs b = Some y"
    and "f x = f y"
  shows "a = b"
  using assms
proof (induction xs)
  case Nil
  then show ?case by simp
next
  case (Cons kv xs)
  obtain k v where kv: "kv = (k, v)" by (cases kv)
  have out: "f v \<noteq> f z" if "map_of xs c = Some z" for c z
  proof -
    from that have "(c, z) \<in> set xs" by (rule map_of_SomeD)
    then have "f z \<in> set (map (f \<circ> snd) xs)" by force
    moreover from Cons.prems(1) kv have "f v \<notin> set (map (f \<circ> snd) xs)" by simp
    ultimately show ?thesis by metis
  qed
  show ?case
  proof (cases "a = k")
    case True
    with Cons.prems(2) kv have x: "x = v" by simp
    show ?thesis
    proof (cases "b = k")
      case True
      with \<open>a = k\<close> show ?thesis by simp
    next
      case False
      with Cons.prems(3) kv have "map_of xs b = Some y" by simp
      from out [OF this] x Cons.prems(4) show ?thesis by simp
    qed
  next
    case False
    with Cons.prems(2) kv have a: "map_of xs a = Some x" by simp
    show ?thesis
    proof (cases "b = k")
      case True
      with Cons.prems(3) kv have "y = v" by simp
      with out [OF a] Cons.prems(4) show ?thesis by simp
    next
      case False
      with Cons.prems(3) kv have "map_of xs b = Some y" by simp
      with Cons.IH [OF _ a this Cons.prems(4)] Cons.prems(1) show ?thesis by simp
    qed
  qed
qed

lemma sysfs_locations_distinct: "distinct (map (location \<circ> snd) sysfs_table)"
  by (simp add: sysfs_table_def)

lemma sysfs_location_inj:
  assumes "sysfs_set n1 = Some e1" and "sysfs_set n2 = Some e2" and "location e1 = location e2"
  shows "n1 = n2"
  using map_of_distinct_values [OF sysfs_locations_distinct] assms
  unfolding sysfs_set_def by blast

lemma setter_args_functional:
  "(n, v1) \<in> set (setter_args config) \<Longrightarrow> (n, v2) \<in> set (setter_args config) \<Longrightarrow> v1 = v2"
  by (auto simp add: setter_args_def)

lemma setter_location_not_port:
  assumes "(name, v) \<in> set (setter_args config)" and "sysfs_set name = Some e"
  shows "location e \<noteq> ''/sys/class/net/{ifname}/brport/path_cost''"
    and "location e \<noteq> ''/sys/class/net/{ifname}/brport/priority''"
  using assms by (auto simp add: setter_args_def sysfs_set_simps)

lemma scalar_params_setter_args:
  "(key, name) \<in> set scalar_params \<Longrightarrow> (name, dict_get config key) \<in> set (setter_args config)"
  by (auto simp add: scalar_params_def setter_args_def)

lemma scenario_ok:
  "fst (update ifn
      [(''forwarding_delay'', PInt 15),
       (''member'', PDict [(''interface'', PDict [(''eth0'', PDict [(''cost'', PInt 100)])])])] s)
   = None"
proof -
  have "fst (update ifn
      [(''forwarding_delay'', PInt 15),
       (''member'', PDict [(''interface'', PDict [(''eth0'', PDict [(''cost'', PInt 100)])])])] s)
    = fst (None :: error option, t)" for t :: system
    by (subst update_replay [OF scenario_steps]) auto
  then show ?thesis by simp
qed

lemma stp_steps:
  "run_steps (config_steps ifn [(''stp'', PDict [])]) s =
   (None, replay
     [Write ''/sys/class/net/{ifname}/bridge/stp_state'' ifn (PStr ''1''),
      Write ''/sys/class/net/{ifname}/bridge/multicast_querier'' ifn (PStr ''0'')] s)"
  by (simp add: config_steps_def eval_defs)

section \<open>Member ports\<close>

lemma run_steps_emits_map: "run_steps (map (\<lambda>x. emit (g x)) xs) s = (None, replay (map g xs) s)"
  by (induction xs arbitrary: s) (simp_all add: emit_def)

lemma del_port_emit: "del_port ifn = (\<lambda>m. emit (Command del_port_cmd ifn (PStr m)))"
  by (rule ext) (simp add: del_port_def set_interface_def command_set_simps run_command_def)

lemma add_port_emit: "add_port ifn p = emit (Command add_port_cmd ifn (PStr p))"
  by (simp add: add_port_def set_interface_def command_set_simps run_command_def)

lemma remove_members_list:
  assumes "vyos_dict_search [''member'', ''interface_remove''] (PDict config) = PStrList rm"
  shows "remove_members ifn config s =
           (None, replay (map (\<lambda>m. Command del_port_cmd ifn (PStr m)) rm) s)"
proof (cases "rm = []")
  case True
  with assms show ?thesis by (simp add: remove_members_def ok_def)
next
  case False
  with assms show ?thesis
    by (simp add: remove_members_def del_port_emit run_steps_emits_map)
qed

lemma master_replay_keep:
  assumes "\<And>x. x \<in> set xs \<Longrightarrow> attaches_only ifn x" and "master s p = Some ifn"
  shows "master (replay xs s) p = Some ifn"
  using assms
proof (induction xs arbitrary: s)
  case Nil
  then show ?case by simp
next
  case (Cons x xs)
  have "attaches_only ifn x" by (rule Cons.prems(1)) simp
  with Cons.prems(2) have "master (perform x s) p = Some ifn"
    by (cases x) (auto simp add: master_perform)
  moreover have "attaches_only ifn y" if "y \<in> set xs" for y
    by (rule Cons.prems(1)) (use that in simp)
  ultimately show ?case
    using Cons.IH [of "perform x s"] by simp
qed

lemma setters_no_command:
  "oblivious (\<lambda>x. \<not> is_command x \<and> \<not> is_admin x)
     (run_steps (Interface_update ifn config
        # map (\<lambda>(name, v). set_interface ifn name v) (setter_args config)))"
proof (rule oblivious_run_steps)
  fix f
  assume "f \<in> set (Interface_update ifn config
        # map (\<lambda>(name, v). set_interface ifn name v) (setter_args config))"
  then consider "f = Interface_update ifn config"
    | name v where "(name, v) \<in> set (setter_args config)" "f = set_interface ifn name v"
    by auto
  then show "oblivious (\<lambda>x. \<not> is_command x \<and> \<not> is_admin x) f"
  proof cases
    case 1
    then show ?thesis by (simp add: Interface_update_def oblivious_ok)
  next
    case 2
    show ?thesis
      unfolding 2(2)
      by (rule oblivious_set_interface) (simp_all add: setter_args_not_command [OF 2(1)])
  qed
qed

lemma cmd_neq: "add_port_cmd \<noteq> del_port_cmd"
  by (simp add: add_port_cmd_def del_port_cmd_def)

section \<open>Reaching a step of the pass\<close>

lemma run_steps_all_ok:
  "(\<And>g t. g \<in> set fs \<Longrightarrow> fst (g t) = None) \<Longrightarrow> fst (run_steps fs s) = None"
proof (induction fs arbitrary: s)
  case Nil
  show ?case by simp
next
  case (Cons f fs)
  have "fst (f s) = None" by (rule Cons.prems) simp
  then obtain t where t: "f s = (None, t)" by (cases "f s") simp
  have "fst (run_steps fs t) = None"
    by (rule Cons.IH) (rule Cons.prems, simp)
  with t show ?case by simp
qed

lemma run_steps_reach:
  assumes pre: "\<And>g t. g \<in> set pre \<Longrightarrow> fst (g t) = None"
    and epre: "\<And>g. g \<in> set pre \<Longrightarrow> emits Q g"
    and epost: "\<And>g. g \<in> set post \<Longrightarrow> emits P g"
    and f: "\<And>t. f t = (r, replay ms t)"
  shows "\<exists>ys zs. (\<forall>x\<in>set ys. Q x) \<and> (\<forall>x\<in>set zs. P x)
           \<and> snd (run_steps (pre @ f # post) s) = replay (ys @ ms @ zs) s
           \<and> (r \<noteq> None \<longrightarrow> zs = [] \<and> fst (run_steps (pre @ f # post) s) = r)"
proof -
  have "fst (run_steps pre s) = None" by (rule run_steps_all_ok) (rule pre)
  moreover have "emits Q (run_steps pre)" by (rule emits_run_steps) (rule epre)
  then obtain ys where ys: "\<forall>x\<in>set ys. Q x" "snd (run_steps pre s) = replay ys s"
    unfolding emits_def by blast
  ultimately have p: "run_steps pre s = (None, replay ys s)"
    by (simp add: prod_eq_iff)
  have run: "run_steps (pre @ f # post) s =
      (case r of None \<Rightarrow> run_steps post (replay ms (replay ys s))
       | Some e \<Rightarrow> (Some e, replay ms (replay ys s)))"
    by (simp add: run_steps_append p f split: option.splits)
  show ?thesis
  proof (cases r)
    case None
    have "emits P (run_steps post)" by (rule emits_run_steps) (rule epost)
    then obtain zs where zs: "\<forall>x\<in>set zs. P x"
      "snd (run_steps post (replay ms (replay ys s))) = replay zs (replay ms (replay ys s))"
      unfolding emits_def by blast
    show ?thesis
      by (rule exI [of _ ys], rule exI [of _ zs]) (use ys zs None run in simp)
  next
    case (Some e)
    show ?thesis
      by (rule exI [of _ ys], rule exI [of _ "[]"]) (use ys Some run in simp)
  qed
qed

lemma run_steps_nested: "run_steps (run_steps gs # hs) = run_steps (gs @ hs)"
  by (rule ext) (simp add: run_steps_append)

lemma run_steps_suffix_cong:
  assumes "run_steps a = run_steps b"
  shows "run_steps (p @ a) = run_steps (p @ b)"
proof
  fix s
  show "run_steps (p @ a) s = run_steps (p @ b) s"
    unfolding run_steps_append assms ..
qed

lemma run_steps_concat:
  "run_steps (map (\<lambda>i. run_steps (g i)) items @ hs) = run_steps (concat (map g items) @ hs)"
proof (induction items)
  case Nil
  show ?case by simp
next
  case (Cons i items)
  have "run_steps (map (\<lambda>i. run_steps (g i)) (i # items) @ hs) =
      run_steps (g i @ (map (\<lambda>i. run_steps (g i)) items @ hs))"
    by (simp add: run_steps_nested)
  also have "\<dots> = run_steps (g i @ (concat (map g items) @ hs))"
    by (rule run_steps_suffix_cong) (rule Cons.IH)
  finally show ?case by simp
qed

lemma port_steps_list: "port_steps ifn = (\<lambda>i. run_steps (port_list ifn i))"
  by (rule ext) (simp add: port_steps_def port_list_def split: prod.splits)

lemma add_members_flat:
  assumes "vyos_dict_search [''member'', ''interface''] (PDict config) = PDict items"
  shows "add_members ifn config = run_steps (map (\<lambda>i. run_steps (port_list ifn i)) items)"
proof (cases "items = []")
  case True
  have "ok = run_steps []" by (rule ext) (simp add: ok_def)
  with assms True show ?thesis by (simp add: add_members_def)
next
  case False
  with assms show ?thesis by (simp add: add_members_def port_steps_list)
qed

lemma update_flat:
  assumes "vyos_dict_search [''member'', ''interface''] (PDict config) = PDict items"
  shows "update ifn config =
     run_steps ((Interface_update ifn config
        # map (\<lambda>(name, v). set_interface ifn name v) (setter_args config)
        @ [remove_members ifn config])
        @ concat (map (port_list ifn) items)
        @ [set_admin_state ifn (admin_direction config)])"
proof -
  let ?A = "Interface_update ifn config
        # map (\<lambda>(name, v). set_interface ifn name v) (setter_args config)
        @ [remove_members ifn config]"
  let ?adm = "set_admin_state ifn (admin_direction config)"
  have "update ifn config = run_steps (?A @ (add_members ifn config # [?adm]))"
    by (simp add: update_steps config_steps_eq)
  also have "\<dots> = run_steps (?A @ (map (\<lambda>i. run_steps (port_list ifn i)) items @ [?adm]))"
    by (rule run_steps_suffix_cong) (simp add: add_members_flat [OF assms] run_steps_nested)
  also have "\<dots> = run_steps (?A @ (concat (map (port_list ifn) items) @ [?adm]))"
    by (rule run_steps_suffix_cong) (rule run_steps_concat)
  finally show ?thesis .
qed

lemma set_interface_valid:
  assumes "command_set name = None" and "sysfs_set name = Some e" and "v \<noteq> PNone"
    and "validate e v" and "converted e v = Inr w"
  shows "set_interface ifn name v t = (None, replay [Write (location e) ifn w] t)"
  using assms by (simp add: set_interface_def set_sysfs_def write_sysfs_def emit_def)

lemma set_interface_invalid:
  assumes "command_set name = None" and "sysfs_set name = Some e" and "v \<noteq> PNone"
    and "\<not> validate e v"
  shows "set_interface ifn name v t = (Some (InvalidParameter name v), replay [] t)"
  using assms by (simp add: set_interface_def set_sysfs_def raise_def)

lemma positive_converted:
  assumes "assert_positive v" and "convert e = None \<or> convert e = Some centiseconds"
  shows "\<exists>w. converted e v = Inr w"
  using assms
  by (cases "py_int v") (auto simp add: converted_def centiseconds_def assert_positive_def)

lemma positive_setter_ok:
  assumes "command_set n = None" and "sysfs_set n = Some e" and "validate e = assert_positive"
    and "convert e = None \<or> convert e = Some centiseconds" and "accepted u"
  shows "fst (set_interface ifn n u t) = None"
proof (cases "u = PNone")
  case True
  with assms(1,2) show ?thesis by (simp add: set_interface_def set_sysfs_def ok_def)
next
  case False
  with assms(5) have p: "assert_positive u" by (simp add: accepted_def)
  from positive_converted [OF p assms(4)] obtain w where "converted e u = Inr w" by blast
  from set_interface_valid [OF assms(1,2) False _ this] p assms(3)
  show ?thesis by simp
qed

lemma scalar_entry:
  assumes "(k, n) \<in> set scalar_params"
  shows "command_set n = None
       \<and> (\<exists>e. sysfs_set n = Some e \<and> validate e = assert_positive
              \<and> (convert e = None \<or> convert e = Some centiseconds))"
  using assms by (auto simp add: scalar_params_def command_set_simps sysfs_set_simps)

lemma scalar_setter_ok:
  assumes "(k, n) \<in> set scalar_params" and "accepted u"
  shows "fst (set_interface ifn n u t) = None"
proof -
  from scalar_entry [OF assms(1)] obtain e where "command_set n = None" "sysfs_set n = Some e"
    "validate e = assert_positive" "convert e = None \<or> convert e = Some centiseconds"
    by blast
  from positive_setter_ok [OF this assms(2)] show ?thesis .
qed

lemma flag_setter_ok:
  "fst (set_interface ifn ''stp'' (PStr (if b then ''1'' else ''0'')) t) = None"
  "fst (set_interface ifn ''multicast_querier'' (PStr (if b then ''1'' else ''0'')) t) = None"
  by (simp_all add: eval_defs)

lemma setter_args_scalars:
  "setter_args config =
     map (\<lambda>p. (snd p, dict_get config (fst p))) scalar_params
     @ [(''stp'', PStr (if dict_has config ''stp'' then ''1'' else ''0'')),
        (''multicast_querier'',
           PStr (if vyos_dict_search [''igmp'', ''querier''] (PDict config) \<noteq> PNone
                 then ''1'' else ''0''))]"
  by (simp add: setter_args_def scalar_params_def)

lemma scalar_split:
  assumes "(key, name) \<in> set scalar_params"
  shows "\<exists>after. scalar_params = scalars_before key @ (key, name) # after"
  using assms by (auto simp add: scalar_params_def scalars_before_def)

lemma scalars_ok:
  assumes "scalars_accepted config ps" and "set ps \<subseteq> set scalar_params"
    and "(n, u) \<in> set (map (\<lambda>p. (snd p, dict_get config (fst p))) ps)"
  shows "fst (set_interface ifn n u t) = None"
proof -
  from assms(3) obtain k where k: "(k, n) \<in> set ps" "u = dict_get config k" by auto
  with assms(1) have "accepted u"
    by (auto simp add: scalars_accepted_def list_all_iff)
  moreover from k(1) assms(2) have "(k, n) \<in> set scalar_params" by auto
  ultimately show ?thesis by (rule scalar_setter_ok [rotated])
qed

lemma setters_ok:
  assumes "scalars_accepted config scalar_params" and "(n, u) \<in> set (setter_args config)"
  shows "fst (set_interface ifn n u t) = None"
proof -
  from assms(2) consider
      "(n, u) \<in> set (map (\<lambda>p. (snd p, dict_get config (fst p))) scalar_params)"
    | "(n, u) = (''stp'', PStr (if dict_has config ''stp'' then ''1'' else ''0''))"
    | "(n, u) = (''multicast_querier'',
           PStr (if vyos_dict_search [''igmp'', ''querier''] (PDict config) \<noteq> PNone
                 then ''1'' else ''0''))"
    unfolding setter_args_scalars by auto
  then show ?thesis
  proof cases
    case 1
    from scalars_ok [OF assms(1) subset_refl 1] show ?thesis .
  next
    case 2
    then show ?thesis using flag_setter_ok(1) by simp
  next
    case 3
    then show ?thesis using flag_setter_ok(2) by simp
  qed
qed

lemma setter_not_written:
  assumes "(name, v) \<in> set (setter_args config)" and "sysfs_set name = Some e"
    and "v = PNone \<or> \<not> validate e v"
  shows "sysfs (snd (update ifn config s)) (location e, ifn) = sysfs s (location e, ifn)
       \<and> (\<forall>w. Write (location e) ifn w \<notin> set (emitted (update ifn config) s))"
proof -
  let ?Q = "\<lambda>x. \<not> writes_to (location e, ifn) x"
  have "emits (\<lambda>x. ?Q x \<or> is_admin x) (update ifn config)"
  proof (rule emits_update)
    fix name' v' e' w
    assume a: "(name', v') \<in> set (setter_args config)" "sysfs_set name' = Some e'"
      "v' \<noteq> PNone" "validate e' v'"
    show "\<not> writes_to (location e, ifn) (Write (location e') ifn w)"
    proof
      assume "writes_to (location e, ifn) (Write (location e') ifn w)"
      then have "location e' = location e" by simp
      with a(2) assms(2) have n: "name' = name" by (rule sysfs_location_inj)
      with a(1) have "(name, v') \<in> set (setter_args config)" by simp
      from setter_args_functional [OF this assms(1)] have "v' = v" .
      with n a(2,3,4) assms(2,3) show False by simp
    qed
  qed (use setter_location_not_port [OF assms(1,2)] in auto)
  then obtain xs where xs: "\<forall>x\<in>set xs. ?Q x \<or> is_admin x"
    and s': "snd (update ifn config s) = replay xs s"
    unfolding emits_def by blast
  have nw: "\<not> writes_to (location e, ifn) x" if "x \<in> set xs" for x
    using xs that by (cases x) auto
  have "sysfs (replay xs s) (location e, ifn) = sysfs s (location e, ifn)"
    by (rule sysfs_replay_frame) (rule nw)
  moreover have "Write (location e) ifn w \<notin> set xs" for w
    using nw [of "Write (location e) ifn w"] by auto
  ultimately show ?thesis
    by (simp add: s' emitted_replay [where f = "update ifn config", OF s'])
qed

lemma setter_reached:
  assumes split: "setter_args config = before @ (name, v) # after"
    and ok: "\<And>n u t. (n, u) \<in> set before \<Longrightarrow> fst (set_interface ifn n u t) = None"
    and e: "sysfs_set name = Some e" and v: "v \<noteq> PNone"
    and conv: "validate e v \<Longrightarrow> \<exists>w. converted e v = Inr w"
  shows "(validate e v \<longrightarrow>
            (\<exists>w. converted e v = Inr w
               \<and> Write (location e) ifn w \<in> set (emitted (update ifn config) s)
               \<and> sysfs (snd (update ifn config s)) (location e, ifn) = Some w))
       \<and> (\<not> validate e v \<longrightarrow> fst (update ifn config s) = Some (InvalidParameter name v))"
proof -
  let ?set = "\<lambda>(n, u). set_interface ifn n u"
  let ?pre = "Interface_update ifn config # map ?set before"
  let ?f = "set_interface ifn name v"
  let ?post = "map ?set after @ [remove_members ifn config, add_members ifn config,
      set_admin_state ifn (admin_direction config)]"
  let ?fs = "config_steps ifn config @ [set_admin_state ifn (admin_direction config)]"
  have mem: "(name, v) \<in> set (setter_args config)" by (simp add: split)
  have nc: "command_set name = None" by (rule setter_args_not_command [OF mem])
  have L: "?fs = ?pre @ ?f # ?post"
    by (simp add: config_steps_eq split)
  have u: "update ifn config = run_steps (?pre @ ?f # ?post)"
    unfolding update_steps L ..
  have pre: "fst (g t) = None" if "g \<in> set ?pre" for g t
  proof -
    from that consider "g = Interface_update ifn config"
      | n u where "(n, u) \<in> set before" "g = set_interface ifn n u"
      by auto
    then show ?thesis
    proof cases
      case 1
      then show ?thesis by (simp add: Interface_update_def ok_def)
    next
      case 2
      from ok [OF 2(1)] 2(2) show ?thesis by simp
    qed
  qed
  show ?thesis
  proof (cases "validate e v")
    case False
    have f: "?f t = (Some (InvalidParameter name v), replay [] t)" for t
      by (rule set_interface_invalid [OF nc e v False])
    have t: "emits (\<lambda>_. True) g" if "g \<in> set ?fs" for g
      using emits_update_step [of config "\<lambda>_. True" ifn g] that
      by (simp add: emits_def)
    have "\<exists>ys zs. (\<forall>x\<in>set ys. True) \<and> (\<forall>x\<in>set zs. True)
           \<and> snd (run_steps (?pre @ ?f # ?post) s) = replay (ys @ [] @ zs) s
           \<and> (Some (InvalidParameter name v) \<noteq> None \<longrightarrow>
                zs = [] \<and> fst (run_steps (?pre @ ?f # ?post) s) = Some (InvalidParameter name v))"
    proof (rule run_steps_reach [where pre = ?pre and f = ?f and post = ?post
          and Q = "\<lambda>_. True" and P = "\<lambda>_. True"
          and r = "Some (InvalidParameter name v)" and ms = "[]" and s = s])
      fix g t assume "g \<in> set ?pre"
      then show "fst (g t) = None" by (rule pre)
    next
      fix g assume "g \<in> set ?pre"
      then show "emits (\<lambda>_. True) g" by (intro t) (auto simp add: L)
    next
      fix g assume "g \<in> set ?post"
      then show "emits (\<lambda>_. True) g" by (intro t) (auto simp add: L)
    next
      fix t show "?f t = (Some (InvalidParameter name v), replay [] t)" by (rule f)
    qed
    then have "fst (update ifn config s) = Some (InvalidParameter name v)"
      unfolding u by blast
    with False show ?thesis by simp
  next
    case True
    from conv [OF True] obtain w where w: "converted e v = Inr w" by blast
    let ?W = "Write (location e) ifn w"
    let ?Q = "\<lambda>x. \<forall>w'. x = Write (location e) ifn w' \<longrightarrow> w' = w"
    have f: "?f t = (None, replay [?W] t)" for t
      by (rule set_interface_valid [OF nc e v True w])
    have em: "emits (\<lambda>x. ?Q x \<or> is_admin x) g" if "g \<in> set ?fs" for g
    proof (rule emits_update_step [of config ?Q ifn])
      fix name' v' e' w'
      assume a: "(name', v') \<in> set (setter_args config)" "sysfs_set name' = Some e'"
        "converted e' v' = Inr w'"
      show "\<forall>u. Write (location e') ifn w' = Write (location e) ifn u \<longrightarrow> u = w"
      proof (intro allI impI)
        fix u assume "Write (location e') ifn w' = Write (location e) ifn u"
        then have l: "location e' = location e" and u: "u = w'" by simp_all
        from a(2) e l have n: "name' = name" by (rule sysfs_location_inj)
        with a(1) have "(name, v') \<in> set (setter_args config)" by simp
        from setter_args_functional [OF this mem] have "v' = v" .
        with n a(2,3) e w u show "u = w" by simp
      qed
    next
      fix p c u
      show "\<forall>w'. Write ''/sys/class/net/{ifname}/brport/path_cost'' p u = Write (location e) ifn w'
              \<longrightarrow> w' = w"
        using setter_location_not_port(1) [OF mem e] by simp
    next
      fix p c u
      show "\<forall>w'. Write ''/sys/class/net/{ifname}/brport/priority'' p u = Write (location e) ifn w'
              \<longrightarrow> w' = w"
        using setter_location_not_port(2) [OF mem e] by simp
    next
      show "g \<in> set ?fs" by (rule that)
    qed simp_all
    have "\<exists>ys zs. (\<forall>x\<in>set ys. ?Q x \<or> is_admin x) \<and> (\<forall>x\<in>set zs. ?Q x \<or> is_admin x)
           \<and> snd (run_steps (?pre @ ?f # ?post) s) = replay (ys @ [?W] @ zs) s
           \<and> (None \<noteq> (None :: error option) \<longrightarrow>
                zs = [] \<and> fst (run_steps (?pre @ ?f # ?post) s) = None)"
    proof (rule run_steps_reach [where pre = ?pre and f = ?f and post = ?post
          and Q = "\<lambda>x. ?Q x \<or> is_admin x" and P = "\<lambda>x. ?Q x \<or> is_admin x"
          and r = None and ms = "[?W]" and s = s])
      fix g t assume "g \<in> set ?pre"
      then show "fst (g t) = None" by (rule pre)
    next
      fix g assume "g \<in> set ?pre"
      then show "emits (\<lambda>x. ?Q x \<or> is_admin x) g" by (intro em) (auto simp add: L)
    next
      fix g assume "g \<in> set ?post"
      then show "emits (\<lambda>x. ?Q x \<or> is_admin x) g" by (intro em) (auto simp add: L)
    next
      fix t show "?f t = (None, replay [?W] t)" by (rule f)
    qed
    then show ?thesis
    proof (elim exE conjE)
      fix ys zs
      assume *: "\<forall>x\<in>set ys. ?Q x \<or> is_admin x" "\<forall>x\<in>set zs. ?Q x \<or> is_admin x"
        "snd (run_steps (?pre @ ?f # ?post) s) = replay (ys @ [?W] @ zs) s"
      let ?xs = "ys @ [?W] @ zs"
      have s': "snd (update ifn config s) = replay ?xs s"
        unfolding u by (rule *(3))
      have only: "w' = w" if "Write (location e) ifn w' \<in> set ?xs" for w'
      proof -
        from that consider "w' = w" | "Write (location e) ifn w' \<in> set ys"
          | "Write (location e) ifn w' \<in> set zs"
          by auto
        then show ?thesis
        proof cases
          case 1
          then show ?thesis .
        next
          case 2
          from bspec [OF *(1) 2] show ?thesis by simp
        next
          case 3
          from bspec [OF *(2) 3] show ?thesis by simp
        qed
      qed
      have "sysfs (replay ?xs s) (location e, ifn) = Some w"
        by (rule sysfs_replay_last [OF only]) simp_all
      with w True show ?thesis
        by (simp add: s' emitted_replay [where f = "update ifn config", OF s'])
    qed
  qed
qed

section \<open>The scalar parameters of a pass\<close>

lemma scalars_before_subset: "set (scalars_before key) \<subseteq> set scalar_params"
  unfolding scalars_before_def by (auto dest: set_takeWhileD)


lemma scalars_before_simps:
  "scalars_before ''aging'' = []"
  "scalars_before ''forwarding_delay'' = [(''aging'', ''ageing_time'')]"
  "scalars_before ''priority'' =
     [(''aging'', ''ageing_time''), (''forwarding_delay'', ''forward_delay''),
      (''hello_time'', ''hello_time''), (''max_age'', ''max_age'')]"
  by (simp_all add: scalars_before_def scalar_params_def)


lemma aging_zero:
  "update ifn ((''aging'', PInt 0) # rest) s =
     (Some (InvalidParameter ''ageing_time'' (PInt 0)), s)"
  by (simp add: update_eq config_steps_def eval_defs)


section \<open>The spanning-tree and querier setters\<close>

lemma flag_valid:
  "assert_boolean (PStr (if b then ''1'' else ''0''))"
  by (simp add: assert_boolean_def int_of_string_def strip_def is_space_def parse_unsigned_def
      is_digit_def digit_value_def)

lemma flag_reached:
  assumes split: "setter_args config = before @ (name, v) # after"
    and before: "\<And>n u t. (n, u) \<in> set before \<Longrightarrow> fst (set_interface ifn n u t) = None"
    and e: "sysfs_set name = Some e"
    and v: "v \<noteq> PNone" "validate e v" "converted e v = Inr v"
  shows "Write (location e) ifn v \<in> set (emitted (update ifn config) s)
       \<and> sysfs (snd (update ifn config s)) (location e, ifn) = Some v"
proof -
  have c: "validate e v \<Longrightarrow> \<exists>w. converted e v = Inr w"
    using v(3) by (rule exI)
  have "(validate e v \<longrightarrow>
            (\<exists>w. converted e v = Inr w
               \<and> Write (location e) ifn w \<in> set (emitted (update ifn config) s)
               \<and> sysfs (snd (update ifn config s)) (location e, ifn) = Some w))
       \<and> (\<not> validate e v \<longrightarrow> fst (update ifn config s) = Some (InvalidParameter name v))"
    by (rule setter_reached [OF split before e v(1) c])
  then have "validate e v \<longrightarrow>
            (\<exists>w. converted e v = Inr w
               \<and> Write (location e) ifn w \<in> set (emitted (update ifn config) s)
               \<and> sysfs (snd (update ifn config s)) (location e, ifn) = Some w)"
    by (rule conjunct1)
  then have "\<exists>w. converted e v = Inr w
               \<and> Write (location e) ifn w \<in> set (emitted (update ifn config) s)
               \<and> sysfs (snd (update ifn config s)) (location e, ifn) = Some w"
    using v(2) by (rule mp)
  then show ?thesis
  proof (elim exE conjE)
    fix w
    assume w: "converted e v = Inr w"
      and 1: "Write (location e) ifn w \<in> set (emitted (update ifn config) s)"
      and 2: "sysfs (snd (update ifn config s)) (location e, ifn) = Some w"
    from w v(3) have "w = v" by simp
    with 1 2 show ?thesis by simp
  qed
qed


lemma bad_cost_config_accepted:
  "scalars_accepted
     [(''member'', PDict [(''interface'', PDict [(''eth0'', PDict [(''cost'', PInt 0)])])])]
     scalar_params"
  "scalars_accepted [(''stp'', PDict [])] scalar_params"
  by (simp_all add: scalars_accepted_def scalar_params_def dict_get_def accepted_def)

lemma bad_cost_steps:
  "run_steps (config_steps ifn
     [(''member'', PDict [(''interface'', PDict [(''eth0'', PDict [(''cost'', PInt 0)])])])]) s =
   (Some (InvalidParameter ''path_cost'' (PInt 0)), replay
     [Write ''/sys/class/net/{ifname}/bridge/stp_state'' ifn (PStr ''0''),
      Write ''/sys/class/net/{ifname}/bridge/multicast_querier'' ifn (PStr ''0''),
      FlushAddrs ''eth0'',
      Command add_port_cmd ifn (PStr ''eth0'')] s)"
  by (simp add: config_steps_def eval_defs)



section \<open>A port removed and added in one pass\<close>

lemma oblivious_port_list:
  assumes "Q (FlushAddrs p)" and "Q (Command add_port_cmd ifn (PStr p))"
    and "\<And>w. py_get c ''cost'' = Inr w \<Longrightarrow> w \<noteq> PNone \<Longrightarrow> assert_positive w \<Longrightarrow>
           Q (Write ''/sys/class/net/{ifname}/brport/path_cost'' p w)"
    and "\<And>w. py_get c ''priority'' = Inr w \<Longrightarrow> w \<noteq> PNone \<Longrightarrow> assert_positive w \<Longrightarrow>
           Q (Write ''/sys/class/net/{ifname}/brport/priority'' p w)"
    and "g \<in> set (port_list ifn (p, c))"
  shows "oblivious Q g"
proof -
  have 1: "oblivious Q (flush_addrs p)"
    using assms(1) by (simp add: flush_addrs_def oblivious_emit)
  have 2: "oblivious Q (add_port ifn p)"
    unfolding add_port_def
    by (rule oblivious_set_interface) (use assms(2) in \<open>simp_all add: command_set_simps\<close>)
  have 3: "oblivious Q (case py_get c ''cost'' of Inl e \<Rightarrow> raise e | Inr v \<Rightarrow> set_path_cost p v)"
  proof (cases "py_get c ''cost''")
    case (Inl e)
    then show ?thesis by (simp add: oblivious_raise)
  next
    case (Inr v)
    have "oblivious Q (set_interface p ''path_cost'' v)"
      by (rule oblivious_set_interface)
        (use assms(3) Inr in \<open>auto simp add: command_set_simps sysfs_set_simps converted_def\<close>)
    with Inr show ?thesis by (simp add: set_path_cost_def)
  qed
  have 4: "oblivious Q (case py_get c ''priority'' of Inl e \<Rightarrow> raise e
                         | Inr v \<Rightarrow> set_path_priority p v)"
  proof (cases "py_get c ''priority''")
    case (Inl e)
    then show ?thesis by (simp add: oblivious_raise)
  next
    case (Inr v)
    have "oblivious Q (set_interface p ''path_priority'' v)"
      by (rule oblivious_set_interface)
        (use assms(4) Inr in \<open>auto simp add: command_set_simps sysfs_set_simps converted_def\<close>)
    with Inr show ?thesis by (simp add: set_path_priority_def)
  qed
  from assms(5) consider "g = flush_addrs p" | "g = add_port ifn p"
    | "g = (case py_get c ''cost'' of Inl e \<Rightarrow> raise e | Inr v \<Rightarrow> set_path_cost p v)"
    | "g = (case py_get c ''priority'' of Inl e \<Rightarrow> raise e | Inr v \<Rightarrow> set_path_priority p v)"
    unfolding port_list_def by auto
  then show ?thesis
    using 1 2 3 4 by cases simp_all
qed

lemma port_list_attach:
  assumes "g \<in> set (concat (map (port_list ifn) items))"
  shows "emits (attaches_only ifn) g"
proof -
  from assms obtain p c where g: "g \<in> set (port_list ifn (p, c))" by auto
  have "oblivious (attaches_only ifn) g"
    by (rule oblivious_port_list [OF _ _ _ _ g]) simp_all
  then show ?thesis by (rule oblivious_emits)
qed

lemma port_setter_ok:
  assumes "accepted v"
  shows "fst (set_path_cost p v t) = None" "fst (set_path_priority p v t) = None"
  unfolding set_path_cost_def set_path_priority_def
  by (rule positive_setter_ok [OF command_set_simps(10) sysfs_set_simps(8) _ _ assms], simp, simp,
      rule positive_setter_ok [OF command_set_simps(11) sysfs_set_simps(9) _ _ assms], simp, simp)

lemma flush_add_ok:
  "fst (flush_addrs p t) = None" "fst (add_port ifn p t) = None"
  by (simp_all add: flush_addrs_def add_port_emit emit_def)

lemma port_list_ok:
  assumes "port_accepted item" and "g \<in> set (port_list ifn item)"
  shows "fst (g t) = None"
proof -
  obtain p c where item: "item = (p, c)" by (cases item)
  from assms(1) obtain d where c: "c = PDict d"
    and a: "accepted (dict_get d ''cost'')" "accepted (dict_get d ''priority'')"
    unfolding item by (cases c) simp_all
  from assms(2) consider "g = flush_addrs p" | "g = add_port ifn p"
    | "g = set_path_cost p (dict_get d ''cost'')"
    | "g = set_path_priority p (dict_get d ''priority'')"
    unfolding item c port_list_def by auto
  then show ?thesis
  proof cases
    case 1
    then show ?thesis by (simp add: flush_add_ok)
  next
    case 2
    then show ?thesis by (simp add: flush_add_ok)
  next
    case 3
    then show ?thesis by (simp add: port_setter_ok(1) [OF a(1)])
  next
    case 4
    then show ?thesis by (simp add: port_setter_ok(2) [OF a(2)])
  qed
qed

lemma ports_ok:
  assumes "list_all port_accepted items" and "g \<in> set (concat (map (port_list ifn) items))"
  shows "fst (g t) = None"
proof -
  from assms(2) obtain item where i: "item \<in> set items" "g \<in> set (port_list ifn item)" by auto
  from assms(1) i(1) have "port_accepted item" by (simp add: list_all_iff)
  then show ?thesis using i(2) by (rule port_list_ok)
qed

lemma setters_run:
  assumes "scalars_accepted config scalar_params"
  shows "\<exists>xs. (\<forall>x\<in>set xs. \<not> is_command x \<and> \<not> is_admin x)
           \<and> (\<forall>t. run_steps (Interface_update ifn config
                # map (\<lambda>(name, v). set_interface ifn name v) (setter_args config)) t
              = (None, replay xs t))"
proof -
  let ?S = "Interface_update ifn config
             # map (\<lambda>(name, v). set_interface ifn name v) (setter_args config)"
  have "\<exists>e1 xs1. (\<forall>x\<in>set xs1. \<not> is_command x \<and> \<not> is_admin x)
       \<and> (\<forall>t. run_steps ?S t = (e1, replay xs1 t))"
    using setters_no_command [of ifn config] unfolding oblivious_def .
  then show ?thesis
  proof (elim exE conjE)
    fix e1 xs1
    assume xs1: "\<forall>x\<in>set xs1. \<not> is_command x \<and> \<not> is_admin x"
      and r1: "\<forall>t. run_steps ?S t = (e1, replay xs1 t)"
    have ok: "fst (g t) = None" if "g \<in> set ?S" for g t
    proof -
      from that consider "g = Interface_update ifn config"
        | n u where "(n, u) \<in> set (setter_args config)" "g = set_interface ifn n u"
        by auto
      then show ?thesis
      proof cases
        case 1
        then show ?thesis by (simp add: Interface_update_def ok_def)
      next
        case 2
        from setters_ok [OF assms 2(1)] 2(2) show ?thesis by simp
      qed
    qed
    have "fst (run_steps ?S fresh_system) = None" by (rule run_steps_all_ok) (rule ok)
    with r1 have "e1 = None" by simp
    with xs1 r1 show ?thesis by blast
  qed
qed

lemma update_after_removal:
  assumes acc: "scalars_accepted config scalar_params"
    and rm: "vyos_dict_search [''member'', ''interface_remove''] (PDict config) = PStrList rm"
    and items: "vyos_dict_search [''member'', ''interface''] (PDict config) = PDict items"
  shows "\<exists>xs. (\<forall>x\<in>set xs. \<not> is_command x \<and> \<not> is_admin x)
          \<and> update ifn config s =
              run_steps (concat (map (port_list ifn) items)
                         @ [set_admin_state ifn (admin_direction config)])
                (replay (xs @ map (\<lambda>m. Command del_port_cmd ifn (PStr m)) rm) s)"
proof -
  let ?S = "Interface_update ifn config
             # map (\<lambda>(name, v). set_interface ifn name v) (setter_args config)"
  let ?dets = "map (\<lambda>m. Command del_port_cmd ifn (PStr m)) rm"
  let ?R = "concat (map (port_list ifn) items) @ [set_admin_state ifn (admin_direction config)]"
  have "\<exists>xs. (\<forall>x\<in>set xs. \<not> is_command x \<and> \<not> is_admin x)
           \<and> (\<forall>t. run_steps ?S t = (None, replay xs t))"
    by (rule setters_run [OF acc])
  then show ?thesis
  proof (elim exE conjE)
    fix xs
    assume xs: "\<forall>x\<in>set xs. \<not> is_command x \<and> \<not> is_admin x"
      and r: "\<forall>t. run_steps ?S t = (None, replay xs t)"
    from r have r1: "run_steps ?S s = (None, replay xs s)" by (rule spec)
    have r2: "remove_members ifn config (replay xs s) = (None, replay ?dets (replay xs s))"
      by (rule remove_members_list [OF rm])
    have "update ifn config s = run_steps (?S @ (remove_members ifn config # ?R)) s"
      unfolding update_flat [OF items] by simp
    also have "\<dots> = run_steps (remove_members ifn config # ?R) (replay xs s)"
      unfolding run_steps_append r1 by simp
    also have "\<dots> = run_steps ?R (replay (xs @ ?dets) s)"
      using r2 by simp
    finally have "update ifn config s = run_steps ?R (replay (xs @ ?dets) s)" .
    with xs show ?thesis by blast
  qed
qed


lemma readd_then_bad_cost_steps:
  "run_steps (config_steps ifn
      [(''member'', PDict [(''interface_remove'', PStrList [''eth0'']),
                          (''interface'', PDict [(''eth0'', PDict []),
                                                 (''eth1'', PDict [(''cost'', PInt 0)])])])]) s =
   (Some (InvalidParameter ''path_cost'' (PInt 0)), replay
     [Write ''/sys/class/net/{ifname}/bridge/stp_state'' ifn (PStr ''0''),
      Write ''/sys/class/net/{ifname}/bridge/multicast_querier'' ifn (PStr ''0''),
      Command del_port_cmd ifn (PStr ''eth0''),
      FlushAddrs ''eth0'',
      Command add_port_cmd ifn (PStr ''eth0''),
      FlushAddrs ''eth1'',
      Command add_port_cmd ifn (PStr ''eth1'')] s)"
  by (simp add: config_steps_def eval_defs)


lemma attach_steps:
  "run_steps (config_steps ifn
      [(''member'', PDict [(''interface'', PDict [(''eth0'', PDict [])])])]) s =
   (None, replay
     [Write ''/sys/class/net/{ifname}/bridge/stp_state'' ifn (PStr ''0''),
      Write ''/sys/class/net/{ifname}/bridge/multicast_querier'' ifn (PStr ''0''),
      FlushAddrs ''eth0'',
      Command add_port_cmd ifn (PStr ''eth0'')] s)"
  by (simp add: config_steps_def eval_defs)

lemma bad_cost_then_readd_steps:
  "run_steps (config_steps ifn
      [(''member'', PDict [(''interface_remove'', PStrList [''eth0'']),
                          (''interface'', PDict [(''eth1'', PDict [(''cost'', PInt 0)]),
                                                 (''eth0'', PDict [])])])]) s =
   (Some (InvalidParameter ''path_cost'' (PInt 0)), replay
     [Write ''/sys/class/net/{ifname}/bridge/stp_state'' ifn (PStr ''0''),
      Write ''/sys/class/net/{ifname}/bridge/multicast_querier'' ifn (PStr ''0''),
      Command del_port_cmd ifn (PStr ''eth0''),
      FlushAddrs ''eth1'',
      Command add_port_cmd ifn (PStr ''eth1'')] s)"
  by (simp add: config_steps_def eval_defs)


section \<open>The port setters\<close>

lemma removal_ok:
  assumes "removal_accepted config"
  shows "fst (remove_members ifn config t) = None"
proof (cases "truthy (vyos_dict_search [''member'', ''interface_remove''] (PDict config))")
  case False
  then show ?thesis by (simp add: remove_members_def ok_def)
next
  case True
  with assms obtain members
    where m: "py_iter (vyos_dict_search [''member'', ''interface_remove''] (PDict config))
                = Inr members"
    by (cases "py_iter (vyos_dict_search [''member'', ''interface_remove''] (PDict config))")
      (simp_all add: removal_accepted_def)
  from True m show ?thesis
    by (simp add: remove_members_def del_port_emit run_steps_emits_map)
qed

lemma head_ok:
  assumes "scalars_accepted config scalar_params" and "removal_accepted config"
    and "g \<in> set (Interface_update ifn config
            # map (\<lambda>(name, v). set_interface ifn name v) (setter_args config)
            @ [remove_members ifn config])"
  shows "fst (g t) = None"
proof -
  from assms(3) consider "g = Interface_update ifn config"
    | n u where "(n, u) \<in> set (setter_args config)" "g = set_interface ifn n u"
    | "g = remove_members ifn config"
    by auto
  then show ?thesis
  proof cases
    case 1
    then show ?thesis by (simp add: Interface_update_def ok_def)
  next
    case 2
    from setters_ok [OF assms(1) 2(1)] 2(2) show ?thesis by simp
  next
    case 3
    with removal_ok [OF assms(2)] show ?thesis by simp
  qed
qed

lemma head_emits:
  assumes "g \<in> set (Interface_update ifn config
            # map (\<lambda>(name, v). set_interface ifn name v) (setter_args config)
            @ [remove_members ifn config])"
  shows "emits (\<lambda>_. True) g"
proof -
  have "g \<in> set (config_steps ifn config @ [set_admin_state ifn (admin_direction config)])"
    using assms by (auto simp add: config_steps_eq)
  from emits_update_step [of config "\<lambda>_. True" ifn g, OF _ _ _ _ _ _ this]
  show ?thesis by (simp add: emits_def)
qed

lemma port_list_emits:
  assumes "g \<in> set (concat (map (port_list ifn) items))"
  shows "emits (\<lambda>_. True) g"
  by (rule emits_mono [OF port_list_attach [OF assms]]) simp

lemma port_step_reached:
  assumes acc: "scalars_accepted config scalar_params"
    and rem: "removal_accepted config"
    and items: "vyos_dict_search [''member'', ''interface''] (PDict config)
                  = PDict (before @ (p, c) # after)"
    and before: "list_all port_accepted before"
    and split: "port_list ifn (p, c) = pa @ f # pb"
    and pa: "\<And>g t. g \<in> set pa \<Longrightarrow> fst (g t) = None"
    and f: "\<And>t. f t = (r, replay ms t)"
  shows "set ms \<subseteq> set (emitted (update ifn config) s)
       \<and> (r \<noteq> None \<longrightarrow> fst (update ifn config s) = r)"
proof -
  let ?A = "Interface_update ifn config
        # map (\<lambda>(name, v). set_interface ifn name v) (setter_args config)
        @ [remove_members ifn config]"
  let ?adm = "set_admin_state ifn (admin_direction config)"
  let ?B = "concat (map (port_list ifn) before)"
  let ?C = "concat (map (port_list ifn) after)"
  let ?all = "concat (map (port_list ifn) (before @ (p, c) # after))"
  let ?pre = "?A @ ?B @ pa"
  let ?post = "pb @ ?C @ [?adm]"
  have all: "?all = ?B @ (pa @ f # pb) @ ?C"
    by (simp add: split)
  have L: "?A @ ?all @ [?adm] = ?pre @ f # ?post"
    unfolding all by simp
  have u: "update ifn config = run_steps (?pre @ f # ?post)"
    unfolding update_flat [OF items] L ..
  have inall: "g \<in> set ?all" if "g \<in> set ?B \<or> g \<in> set pa \<or> g \<in> set pb \<or> g \<in> set ?C" for g
  proof -
    have "set ?all = set ?B \<union> set pa \<union> {f} \<union> set pb \<union> set ?C"
      unfolding all by (simp only: set_append) auto
    with that show ?thesis by auto
  qed
  have "\<exists>ys zs. (\<forall>x\<in>set ys. True) \<and> (\<forall>x\<in>set zs. True)
           \<and> snd (run_steps (?pre @ f # ?post) s) = replay (ys @ ms @ zs) s
           \<and> (r \<noteq> None \<longrightarrow> zs = [] \<and> fst (run_steps (?pre @ f # ?post) s) = r)"
  proof (rule run_steps_reach [where pre = ?pre and f = f and post = ?post
        and Q = "\<lambda>_. True" and P = "\<lambda>_. True" and r = r and ms = ms and s = s])
    fix g t assume "g \<in> set ?pre"
    then consider "g \<in> set ?A" | "g \<in> set ?B" | "g \<in> set pa" by auto
    then show "fst (g t) = None"
    proof cases
      case 1
      with acc rem show ?thesis by (rule head_ok)
    next
      case 2
      with before show ?thesis by (rule ports_ok)
    next
      case 3
      then show ?thesis by (rule pa)
    qed
  next
    fix g assume "g \<in> set ?pre"
    then consider "g \<in> set ?A" | "g \<in> set ?B \<or> g \<in> set pa" by auto
    then show "emits (\<lambda>_. True) g"
    proof cases
      case 1
      then show ?thesis by (rule head_emits)
    next
      case 2
      then have "g \<in> set ?all" by (intro inall) auto
      then show ?thesis by (rule port_list_emits)
    qed
  next
    fix g assume "g \<in> set ?post"
    then consider "g = ?adm" | "g \<in> set pb \<or> g \<in> set ?C" by auto
    then show "emits (\<lambda>_. True) g"
    proof cases
      case 1
      then show ?thesis by (simp add: emits_set_admin_state)
    next
      case 2
      then have "g \<in> set ?all" by (intro inall) auto
      then show ?thesis by (rule port_list_emits)
    qed
  next
    fix t show "f t = (r, replay ms t)" by (rule f)
  qed
  then show ?thesis
  proof (elim exE conjE)
    fix ys zs
    assume s': "snd (run_steps (?pre @ f # ?post) s) = replay (ys @ ms @ zs) s"
      and r: "r \<noteq> None \<longrightarrow> zs = [] \<and> fst (run_steps (?pre @ f # ?post) s) = r"
    from s' have "snd (update ifn config s) = replay (ys @ ms @ zs) s"
      unfolding u .
    then have "emitted (update ifn config) s = ys @ ms @ zs"
      by (rule emitted_replay [where f = "update ifn config"])
    then have 1: "set ms \<subseteq> set (emitted (update ifn config) s)" by auto
    from r have 2: "r \<noteq> None \<longrightarrow> fst (update ifn config s) = r"
      unfolding u by simp
    from 1 2 show ?thesis by (rule conjI)
  qed
qed




end
